theory Spec2Isabelle
  imports Main "HOL-Library.AList" "HOL-Library.Sublist"
begin

section \<open>Middleware registry (class MiddlewareChain: add, resolve)\<close>

text \<open>
  A layer is the object \<open>{ path, fn }\<close> pushed by \<open>add\<close>: \<open>path\<close> is a string or
  \<open>null\<close> (\<open>None\<close>), \<open>fn\<close> is the middleware function, kept abstract as \<open>'f\<close>.
  JavaScript strings are modelled as \<open>string\<close> (lists of \<open>char\<close>).
\<close>

record 'f MiddlewareLayer =
  path :: "string option"
  fn :: 'f

text \<open>\<open>if (path)\<close>: a path is truthy when it is neither \<open>null\<close> nor the empty string.\<close>

definition truthy :: "string option \<Rightarrow> bool" where
  "truthy p = (case p of None \<Rightarrow> False | Some s \<Rightarrow> s \<noteq> [])"

text \<open>\<open>s.endsWith('/')\<close>.\<close>

definition endsWithSlash :: "string \<Rightarrow> bool" where
  "endsWithSlash s = (s \<noteq> [] \<and> last s = CHR ''/'')"

text \<open>
  \<open>add(path, fn)\<close>: prepend \<open>/\<close> to a truthy path that lacks it, drop one trailing \<open>/\<close>
  of a path longer than one character (\<open>slice(0, -1)\<close>), push the layer.
\<close>

definition chain_add :: "'f MiddlewareLayer list \<Rightarrow> string option \<Rightarrow> 'f \<Rightarrow> 'f MiddlewareLayer list" where
  "chain_add layers p f =
     (let p1 = (if truthy p \<and> \<not> prefix ''/'' (the p) then Some (''/'' @ the p) else p);
          p2 = (if truthy p1 \<and> endsWithSlash (the p1) \<and> length (the p1) > 1
                then Some (butlast (the p1)) else p1)
      in layers @ [\<lparr>path = p2, fn = f\<rparr>])"

text \<open>
  \<open>resolve(requestPath, routeMiddleware)\<close>: the first loop walks \<open>this.layers\<close> and pushes
  the function of every layer that is global or whose path matches; the second loop pushes
  the route-level middleware. \<open>applicable\<close> is the accumulator of both loops.
\<close>

fun resolve_layers :: "'f MiddlewareLayer list \<Rightarrow> string \<Rightarrow> 'f list \<Rightarrow> 'f list" where
  "resolve_layers [] requestPath applicable = applicable"
| "resolve_layers (layer # rest) requestPath applicable =
     (case path layer of
        None \<Rightarrow> resolve_layers rest requestPath (applicable @ [fn layer])
      | Some lp \<Rightarrow>
          if requestPath = lp \<or> prefix (lp @ ''/'') requestPath
          then resolve_layers rest requestPath (applicable @ [fn layer])
          else resolve_layers rest requestPath applicable)"

fun push_route_middleware :: "'f list \<Rightarrow> 'f list \<Rightarrow> 'f list" where
  "push_route_middleware [] applicable = applicable"
| "push_route_middleware (m # ms) applicable = push_route_middleware ms (applicable @ [m])"

definition resolve :: "'f MiddlewareLayer list \<Rightarrow> string \<Rightarrow> 'f list \<Rightarrow> 'f list" where
  "resolve layers requestPath routeMiddleware =
     push_route_middleware routeMiddleware (resolve_layers layers requestPath [])"

text \<open>A sequence of \<open>add\<close> calls, starting from the empty layer list of the constructor.\<close>

definition add_all :: "(string option \<times> 'f) list \<Rightarrow> 'f MiddlewareLayer list" where
  "add_all calls = foldl (\<lambda>layers (p, f). chain_add layers p f) [] calls"

text \<open>
  The resolution rule in the specification's words: a layer applies to a request path when
  it is global, or when its prefix equals the request path or is a prefix of it followed by
  \<open>/\<close>.
\<close>

definition layer_applies :: "string \<Rightarrow> 'f MiddlewareLayer \<Rightarrow> bool" where
  "layer_applies requestPath layer =
     (case path layer of
        None \<Rightarrow> True
      | Some lp \<Rightarrow> requestPath = lp \<or> (\<exists>rest. requestPath = lp @ ''/'' @ rest))"

section \<open>Router (class Router: add, _insertStatic, find, _search, _matchStatic)\<close>

text \<open>
  The router of \<open>src/router.js\<close>. JavaScript strings are \<open>string\<close>; handlers and
  middleware functions are opaque values of the type variables \<open>'h\<close> and \<open>'m\<close>.
  A JavaScript \<open>Map\<close> and the \<open>params\<close> object are association lists read with
  \<open>map_of\<close>: \<open>set\<close> and property assignment are \<open>AList.update\<close> (replace in
  place, or append a new key), \<open>delete\<close> is \<open>AList.delete\<close>.

  \<open>add\<close> mutates the router and may throw after it has mutated it. The model returns
  both: the error thrown, if any, and the router as the call leaves it.
\<close>

datatype error = InvalidRouteError | RouteConflictError

text \<open>The object \<open>{ handler, middleware }\<close> stored in \<open>handlers\<close> and in the static cache.\<close>

record ('h, 'm) RouteEntry =
  handler :: 'h
  middleware :: "'m list"

text \<open>
  \<open>class RadixNode\<close>, field by field. The tree owns its nodes (no node has two parents),
  so the mutable object graph is a value of this datatype.
\<close>

datatype ('h, 'm) RadixNode =
  RadixNode
    (label: string)
    (children: "('h, 'm) RadixNode list")
    (handlers: "(string \<times> ('h, 'm) RouteEntry) list")
    (paramName: "string option")
    (isWildcard: bool)
    (paramChild: "('h, 'm) RadixNode option")
    (wildcardChild: "('h, 'm) RadixNode option")

text \<open>The constructor \<open>new RadixNode(label)\<close>.\<close>

definition new_RadixNode :: "string \<Rightarrow> ('h, 'm) RadixNode" where
  "new_RadixNode l = RadixNode l [] [] None False None None"

text \<open>\<open>class Router\<close>: the root node and the static cache \<open>staticRoutes\<close>.\<close>

record ('h, 'm) Router =
  root :: "('h, 'm) RadixNode"
  staticRoutes :: "(string \<times> ('h, 'm) RouteEntry) list"

definition new_Router :: "('h, 'm) Router" where
  "new_Router = \<lparr>root = new_RadixNode [], staticRoutes = []\<rparr>"

text \<open>The object \<open>{ handler, params, middleware }\<close> returned by \<open>find\<close>; \<open>null\<close> is \<open>None\<close>.\<close>

record ('h, 'm) MatchResult =
  res_handler :: 'h
  res_params :: "(string \<times> string) list"
  res_middleware :: "'m list"

text \<open>
  \<open>method.toUpperCase()\<close> on the letters \<open>a\<close> to \<open>z\<close> (codes 97 to 122, bit 5
  cleared); every other character is left as it is. This is \<open>toUpperCase\<close> on ASCII
  strings, which HTTP method names are; on letters outside ASCII the source changes more
  than the model does. No property below depends on what upper-casing returns.
\<close>

definition upper_char :: "char \<Rightarrow> char" where
  "upper_char c =
     (case c of Char b0 b1 b2 b3 b4 b5 b6 b7 \<Rightarrow>
        if 97 \<le> (of_char c :: nat) \<and> (of_char c :: nat) \<le> 122
        then Char b0 b1 b2 b3 b4 False b6 b7 else c)"

definition toUpperCase :: "string \<Rightarrow> string" where
  "toUpperCase s = map upper_char s"

text \<open>
  \<open>path.split('/')\<close>: the pieces between the separators, empty pieces included
  (\<open>''.split('/')\<close> is \<open>['']\<close>). \<open>_splitPath\<close> then drops the empty pieces
  (\<open>filter(Boolean)\<close>).
\<close>

fun split_on :: "char \<Rightarrow> string \<Rightarrow> string list" where
  "split_on c [] = [[]]"
| "split_on c (x # xs) =
     (if x = c then [] # split_on c xs
      else (case split_on c xs of
              [] \<Rightarrow> [[x]]
            | w # ws \<Rightarrow> (x # w) # ws))"

definition splitPath :: "string \<Rightarrow> string list" where
  "splitPath p = filter (\<lambda>s. s \<noteq> []) (split_on CHR ''/'' p)"

text \<open>\<open>_commonPrefixLength(a, b)\<close>: the \<open>while\<close> loop counts the leading characters that agree.\<close>

fun commonPrefixLength :: "string \<Rightarrow> string \<Rightarrow> nat" where
  "commonPrefixLength (a # as) (b # bs) = (if a = b then Suc (commonPrefixLength as bs) else 0)"
| "commonPrefixLength _ _ = 0"

text \<open>\<open>segments.join('/')\<close>.\<close>

fun join_slash :: "string list \<Rightarrow> string" where
  "join_slash [] = []"
| "join_slash [s] = s"
| "join_slash (s # t # ss) = s @ ''/'' @ join_slash (t # ss)"


text \<open>Assignments to the fields of a node.\<close>

definition set_children :: "('h, 'm) RadixNode \<Rightarrow> ('h, 'm) RadixNode list \<Rightarrow> ('h, 'm) RadixNode" where
  "set_children n cs = RadixNode (label n) cs (handlers n) (paramName n) (isWildcard n) (paramChild n) (wildcardChild n)"

definition set_label :: "('h, 'm) RadixNode \<Rightarrow> string \<Rightarrow> ('h, 'm) RadixNode" where
  "set_label n l = RadixNode l (children n) (handlers n) (paramName n) (isWildcard n) (paramChild n) (wildcardChild n)"

definition set_handlers :: "('h, 'm) RadixNode \<Rightarrow> (string \<times> ('h, 'm) RouteEntry) list \<Rightarrow> ('h, 'm) RadixNode" where
  "set_handlers n hs = RadixNode (label n) (children n) hs (paramName n) (isWildcard n) (paramChild n) (wildcardChild n)"

definition set_paramName :: "('h, 'm) RadixNode \<Rightarrow> string option \<Rightarrow> ('h, 'm) RadixNode" where
  "set_paramName n p = RadixNode (label n) (children n) (handlers n) p (isWildcard n) (paramChild n) (wildcardChild n)"

definition set_isWildcard :: "('h, 'm) RadixNode \<Rightarrow> bool \<Rightarrow> ('h, 'm) RadixNode" where
  "set_isWildcard n b = RadixNode (label n) (children n) (handlers n) (paramName n) b (paramChild n) (wildcardChild n)"

definition set_paramChild :: "('h, 'm) RadixNode \<Rightarrow> ('h, 'm) RadixNode option \<Rightarrow> ('h, 'm) RadixNode" where
  "set_paramChild n c = RadixNode (label n) (children n) (handlers n) (paramName n) (isWildcard n) c (wildcardChild n)"

definition set_wildcardChild :: "('h, 'm) RadixNode \<Rightarrow> ('h, 'm) RadixNode option \<Rightarrow> ('h, 'm) RadixNode" where
  "set_wildcardChild n c = RadixNode (label n) (children n) (handlers n) (paramName n) (isWildcard n) (paramChild n) c"

text \<open>
  \<open>_insertStatic(parent, segment)\<close> returns a node of the tree, which \<open>add\<close> then
  goes on to mutate. In the model the rest of \<open>add\<close> is the continuation \<open>k\<close>: it
  receives the node that \<open>_insertStatic\<close> returns and gives back that node as the rest
  of \<open>add\<close> leaves it, together with a result \<open>r\<close>; \<open>insertStatic_from\<close> puts
  the node back where the source has it. \<open>insertStatic_from i\<close> is the \<open>for\<close> loop
  from index \<open>i\<close> on; the branches are those of the source, in its order. In the split
  branch the old child keeps its subtree and its handlers under the shortened label.
\<close>

function insertStatic_from ::
  "nat \<Rightarrow> ('h, 'm) RadixNode \<Rightarrow> string \<Rightarrow> (('h, 'm) RadixNode \<Rightarrow> 'r \<times> ('h, 'm) RadixNode)
     \<Rightarrow> 'r \<times> ('h, 'm) RadixNode" where
  "insertStatic_from i parent segment k =
     (if i < length (children parent) then
        (let child = children parent ! i;
             commonLen = commonPrefixLength (label child) segment
         in if commonLen = 0 then insertStatic_from (Suc i) parent segment k
            else if commonLen = length (label child) \<and> commonLen = length segment then
              (let (r, child') = k child
               in (r, set_children parent ((children parent)[i := child'])))
            else if commonLen = length (label child) then
              (let (r, child') = insertStatic_from 0 child (drop commonLen segment) k
               in (r, set_children parent ((children parent)[i := child'])))
            else if commonLen < length (label child) then
              (let splitNode = set_children (new_RadixNode (take commonLen (label child)))
                                 [set_label child (drop commonLen (label child))]
               in if commonLen = length segment then
                    (let (r, splitNode') = k splitNode
                     in (r, set_children parent ((children parent)[i := splitNode'])))
                  else
                    (let (r, newNode') = k (new_RadixNode (drop commonLen segment))
                     in (r, set_children parent
                              ((children parent)[i := set_children splitNode (children splitNode @ [newNode'])]))))
            else insertStatic_from (Suc i) parent segment k)
      else
        (let (r, newNode') = k (new_RadixNode segment)
         in (r, set_children parent (children parent @ [newNode']))))"
  by pat_completeness auto
termination
proof (relation "measures [\<lambda>(i, parent, segment, k). length segment,
                           \<lambda>(i, parent, segment, k). length (children parent) - i]")
  have le: "commonPrefixLength a b \<le> length b" for a b :: string
    by (induction a b rule: commonPrefixLength.induct) auto
  fix i :: nat and parent :: "('h, 'm) RadixNode" and segment :: string
    and k :: "('h, 'm) RadixNode \<Rightarrow> 'r \<times> ('h, 'm) RadixNode"
    and x :: "('h, 'm) RadixNode" and xa
  assume "xa = commonPrefixLength (label x) segment" "xa \<noteq> 0"
  with le [of "label x" segment]
  show "((0, x, drop xa segment, k), i, parent, segment, k)
        \<in> measures [\<lambda>(i, parent, segment, k). length segment,
                     \<lambda>(i, parent, segment, k). length (children parent) - i]"
    by auto
qed auto

definition insertStatic ::
  "('h, 'm) RadixNode \<Rightarrow> string \<Rightarrow> (('h, 'm) RadixNode \<Rightarrow> 'r \<times> ('h, 'm) RadixNode)
     \<Rightarrow> 'r \<times> ('h, 'm) RadixNode" where
  "insertStatic parent segment k = insertStatic_from 0 parent segment k"

text \<open>
  The loop of \<open>add\<close> over \<open>segments\<close>, from the node it has reached, and the two
  statements after the loop. \<open>rest \<noteq> []\<close> is the test \<open>i !== segments.length - 1\<close>.
  A \<open>throw\<close> returns the error with the node as mutated so far.
\<close>

primrec add_segments ::
  "string list \<Rightarrow> string \<Rightarrow> ('h, 'm) RouteEntry \<Rightarrow> ('h, 'm) RadixNode
     \<Rightarrow> error option \<times> ('h, 'm) RadixNode" where
  "add_segments [] method entry node =
     (if map_of (handlers node) method \<noteq> None then (Some RouteConflictError, node)
      else (None, set_handlers node (AList.update method entry (handlers node))))"
| "add_segments (segment # rest) method entry node =
     (if prefix '':'' segment then
        (let pName = drop 1 segment
         in if pName = [] then (Some InvalidRouteError, node)
            else (case paramChild node of
                    None \<Rightarrow>
                      (let (r, pc) = add_segments rest method entry
                                       (set_paramName (new_RadixNode segment) (Some pName))
                       in (r, set_paramChild node (Some pc)))
                  | Some pc0 \<Rightarrow>
                      if paramName pc0 \<noteq> Some pName then (Some RouteConflictError, node)
                      else (let (r, pc) = add_segments rest method entry pc0
                            in (r, set_paramChild node (Some pc)))))
      else if segment = ''*'' then
        (if rest \<noteq> [] then (Some InvalidRouteError, node)
         else (case wildcardChild node of
                 None \<Rightarrow>
                   (let (r, wc) = add_segments rest method entry
                                    (set_isWildcard (new_RadixNode ''*'') True)
                    in (r, set_wildcardChild node (Some wc)))
               | Some wc0 \<Rightarrow>
                   (let (r, wc) = add_segments rest method entry wc0
                    in (r, set_wildcardChild node (Some wc)))))
      else insertStatic node segment (add_segments rest method entry))"

text \<open>The cache key \<open>`${method}:${path}`\<close>.\<close>

definition static_key :: "string \<Rightarrow> string \<Rightarrow> string" where
  "static_key method p = method @ '':'' @ p"

text \<open>
  \<open>add(method, path, middleware, handler)\<close>. The static cache is written before the
  tree is walked, as in the source.
\<close>

definition router_add ::
  "('h, 'm) Router \<Rightarrow> string \<Rightarrow> string \<Rightarrow> 'm list \<Rightarrow> 'h \<Rightarrow> error option \<times> ('h, 'm) Router" where
  "router_add r method0 p mw h =
     (let method = toUpperCase method0;
          entry = \<lparr>handler = h, middleware = mw\<rparr>
      in if \<not> prefix ''/'' p then (Some InvalidRouteError, r)
         else
           (let isStatic = (CHR '':'' \<notin> set p \<and> CHR ''*'' \<notin> set p);
                key = static_key method p
            in if isStatic \<and> map_of (staticRoutes r) key \<noteq> None then (Some RouteConflictError, r)
               else
                 (let r1 = (if isStatic
                            then r\<lparr>staticRoutes := AList.update key entry (staticRoutes r)\<rparr>
                            else r);
                      (res, root') = add_segments (splitPath p) method entry (root r1)
                  in (res, r1\<lparr>root := root'\<rparr>))))"

text \<open>\<open>_matchStatic(child, segments, segIdx)\<close>; \<open>null\<close> is \<open>None\<close>.\<close>

definition matchStatic :: "('h, 'm) RadixNode \<Rightarrow> string list \<Rightarrow> nat \<Rightarrow> nat option" where
  "matchStatic child segments segIdx =
     (if segIdx \<ge> length segments then None
      else if label child = segments ! segIdx then Some (segIdx + 1)
      else None)"

text \<open>
  The property key \<open>node.paramChild.paramName\<close>. \<open>add\<close> always sets the name of a
  parametric child; a \<open>null\<close> name would be the key \<open>null\<close>.
\<close>

definition param_key :: "('h, 'm) RadixNode \<Rightarrow> string" where
  "param_key pc = (case paramName pc of None \<Rightarrow> ''null'' | Some n \<Rightarrow> n)"

text \<open>The result object, with its copy \<open>{ ...params }\<close> of the parameters.\<close>

definition make_result :: "('h, 'm) RouteEntry \<Rightarrow> (string \<times> string) list \<Rightarrow> ('h, 'm) MatchResult" where
  "make_result route params =
     \<lparr>res_handler = handler route, res_params = params, res_middleware = middleware route\<rparr>"

text \<open>
  \<open>_search(node, segments, segIdx, params, method)\<close>. The source mutates the one
  \<open>params\<close> object, so the model threads it: the function returns the result and the
  parameters as the call leaves them. \<open>search_children\<close> is the \<open>for\<close> loop over
  \<open>node.children\<close>. \<open>find\<close> starts at index 0, and a call passes on
  \<open>segIdx + 1\<close> only after the test \<open>segIdx === segments.length\<close> has failed, so
  \<open>segIdx \<le> length segments\<close> in every call and \<open>segments ! segIdx\<close> is read in
  range. Every key is an ordinary property of \<open>params\<close> in the model; the source
  stores nothing under the key \<open>__proto__\<close>.
\<close>

fun search ::
    "('h, 'm) RadixNode \<Rightarrow> string list \<Rightarrow> nat \<Rightarrow> (string \<times> string) list \<Rightarrow> string
       \<Rightarrow> ('h, 'm) MatchResult option \<times> (string \<times> string) list"
  and search_children ::
    "('h, 'm) RadixNode list \<Rightarrow> string list \<Rightarrow> nat \<Rightarrow> (string \<times> string) list \<Rightarrow> string
       \<Rightarrow> ('h, 'm) MatchResult option \<times> (string \<times> string) list" where
  "search (RadixNode lbl chs hs pn wild pc wc) segments segIdx params method =
     (if segIdx = length segments then
        (case map_of hs method of
           Some route \<Rightarrow> (Some (make_result route params), params)
         | None \<Rightarrow> (None, params))
      else
        (let segment = segments ! segIdx
         in case search_children chs segments segIdx params method of
              (Some result, params1) \<Rightarrow> (Some result, params1)
            | (None, params1) \<Rightarrow>
                (case (case pc of
                         None \<Rightarrow> (None, params1)
                       | Some p \<Rightarrow>
                           (case search p segments (segIdx + 1)
                                   (AList.update (param_key p) segment params1) method of
                              (Some result, params2) \<Rightarrow> (Some result, params2)
                            | (None, params2) \<Rightarrow> (None, AList.delete (param_key p) params2))) of
                   (Some result, params3) \<Rightarrow> (Some result, params3)
                 | (None, params3) \<Rightarrow>
                     (case wc of
                        None \<Rightarrow> (None, params3)
                      | Some w \<Rightarrow>
                          (let wildcardValue = join_slash (drop segIdx segments);
                               params4 = AList.update ''*'' wildcardValue params3
                           in case map_of (handlers w) method of
                                Some route \<Rightarrow> (Some (make_result route params4), params4)
                              | None \<Rightarrow> (None, AList.delete ''*'' params4))))))"
| "search_children [] segments segIdx params method = (None, params)"
| "search_children (child # rest) segments segIdx params method =
     (case matchStatic child segments segIdx of
        None \<Rightarrow> search_children rest segments segIdx params method
      | Some match \<Rightarrow>
          (case search child segments match params method of
             (Some result, params1) \<Rightarrow> (Some result, params1)
           | (None, params1) \<Rightarrow> search_children rest segments segIdx params1 method))"

text \<open>\<open>find(method, path)\<close>: the static cache first, then the tree.\<close>

definition router_find ::
  "('h, 'm) Router \<Rightarrow> string \<Rightarrow> string \<Rightarrow> ('h, 'm) MatchResult option" where
  "router_find r method0 p =
     (let method = toUpperCase method0
      in case map_of (staticRoutes r) (static_key method p) of
           Some staticMatch \<Rightarrow> Some (make_result staticMatch [])
         | None \<Rightarrow> fst (search (root r) (splitPath p) 0 [] method))"

text \<open>The second half of \<open>find\<close> alone: the search of the tree, without the cache.\<close>

definition tree_walk ::
  "('h, 'm) Router \<Rightarrow> string \<Rightarrow> string \<Rightarrow> ('h, 'm) MatchResult option" where
  "tree_walk r method0 p = fst (search (root r) (splitPath p) 0 [] (toUpperCase method0))"


text \<open>
  A sequence of \<open>add\<close> calls on a new router: the errors thrown, call by call
  (\<open>None\<close> for a call that returned), and the router at the end.
\<close>

definition register_all ::
  "(string \<times> string \<times> 'm list \<times> 'h) list \<Rightarrow> error option list \<times> ('h, 'm) Router" where
  "register_all calls =
     foldl (\<lambda>(errs, r) (m, p, mw, h). (let (e, r') = router_add r m p mw h in (errs @ [e], r')))
       ([], new_Router) calls"


text \<open>
  The two malformed segments of the specification: a parameter segment with an empty name,
  and a \<open>*\<close> that is not the last segment.
\<close>

definition offending :: "string \<Rightarrow> string list \<Rightarrow> bool" where
  "offending segment rest = (segment = '':'' \<or> (segment = ''*'' \<and> rest \<noteq> []))"


text \<open>
  Whether the walk of \<open>add\<close> through the given segments meets a parametric child that
  is registered under another name than the parameter segment that arrives at it. The
  tree position of every segment is the one that \<open>add\<close> itself reaches: parametric
  children are followed or created as in the loop, static segments go through
  \<open>_insertStatic\<close>. The walk ends without a clash at a segment that \<open>add\<close> rejects.
\<close>

primrec param_clash :: "string list \<Rightarrow> ('h, 'm) RadixNode \<Rightarrow> bool" where
  "param_clash [] node = False"
| "param_clash (segment # rest) node =
     (if prefix '':'' segment then
        (let pName = drop 1 segment
         in if pName = [] then False
            else (case paramChild node of
                    None \<Rightarrow> param_clash rest (set_paramName (new_RadixNode segment) (Some pName))
                  | Some pc0 \<Rightarrow> paramName pc0 \<noteq> Some pName \<or> param_clash rest pc0))
      else if segment = ''*'' then False
      else fst (insertStatic node segment (\<lambda>n. (param_clash rest n, n))))"


text \<open>No key of a parameter object is bound to the empty string.\<close>

definition values_nonempty :: "(string \<times> string) list \<Rightarrow> bool" where
  "values_nonempty params = (\<forall>k. map_of params k \<noteq> Some [])"


text \<open>
  An address in the tree, for stating where a wildcard route lives: from a node, go to
  its static child number \<open>j\<close>, or to its parametric child.
\<close>

datatype step = StaticChild nat | ParamChild

text \<open>
  \<open>wildcard_at steps node segments segIdx\<close> follows the steps from the node, one segment
  per step: a static child is followed when its whole label is the segment, as
  \<open>_matchStatic\<close> requires, the parametric child for any segment. It yields the wildcard
  child of the node it arrives at. \<open>without_wildcard\<close> is the same tree with that
  wildcard child taken away.
\<close>

fun wildcard_at ::
  "step list \<Rightarrow> ('h, 'm) RadixNode \<Rightarrow> string list \<Rightarrow> nat \<Rightarrow> ('h, 'm) RadixNode option" where
  "wildcard_at [] node segments segIdx = wildcardChild node"
| "wildcard_at (StaticChild j # steps) node segments segIdx =
     (if j < length (children node) \<and> segIdx < length segments
         \<and> label (children node ! j) = segments ! segIdx
      then wildcard_at steps (children node ! j) segments (Suc segIdx)
      else None)"
| "wildcard_at (ParamChild # steps) node segments segIdx =
     (case paramChild node of
        None \<Rightarrow> None
      | Some p \<Rightarrow> if segIdx < length segments then wildcard_at steps p segments (Suc segIdx) else None)"




section \<open>Chain executor (MiddlewareChain.execute)\<close>

text \<open>
  The executor \<open>MiddlewareChain.execute\<close>. It calls functions it is given:
  the middleware, the handler and the error handler. What such a function does, as far as
  the executor can tell, is modelled as data. A middleware performs a sequence of
  actions, each a call of its continuation \<open>next(err)\<close> or a send of the response
  (which sets \<open>res.sent\<close>), and then returns, throws, or returns a promise that is
  already rejected. An error value is \<open>'e option\<close>: \<open>None\<close> is an absent or falsy
  value, which \<open>if (err)\<close> does not take for an error. A promise that settles later,
  and a middleware that resumes after an \<open>await\<close>, are outside this model.
\<close>

datatype 'e action = CallNext "'e option" | Send

datatype 'e outcome = Returns | Throws "'e option" | Rejects "'e option"

record 'e callable =
  actions :: "'e action list"
  outcome :: "'e outcome"

text \<open>
  The handler \<open>handler(req, res)\<close> has no continuation: it may send, and it returns,
  throws or rejects. The error handler may send; it is taken to return normally.
\<close>

record 'e terminal =
  t_sends :: bool
  t_outcome :: "'e outcome"

record 'e chain =
  middlewareFns :: "'e callable list"
  terminalHandler :: "'e terminal"
  errorHandler_sends :: bool

text \<open>The calls that \<open>execute\<close> makes, in order: the observable behaviour of a run.\<close>

datatype 'e event = MiddlewareRun nat | HandlerRun | ErrorHandlerRun "'e option"

text \<open>
  The reactions registered by \<open>result.catch(...)\<close> on a rejected promise. They run
  after the synchronous part of the run, first registered first.
\<close>

datatype 'e pending = MiddlewareRejected "'e option" | HandlerRejected "'e option"

text \<open>
  The state of a run: the cursor \<open>idx\<close> of the closure, \<open>res.sent\<close>, the calls made
  so far, the middleware calls in progress (innermost first, each with the actions it
  has still to perform and the way it will end), and the pending reactions.
\<close>

record 'e exec_state =
  idx :: nat
  sent :: bool
  trace :: "'e event list"
  stack :: "('e action list \<times> 'e outcome) list"
  jobs :: "'e pending list"

text \<open>\<open>errorHandler(err, req, res)\<close>.\<close>

definition call_errorHandler :: "'e chain \<Rightarrow> 'e option \<Rightarrow> 'e exec_state \<Rightarrow> 'e exec_state" where
  "call_errorHandler c err st =
     st\<lparr>trace := trace st @ [ErrorHandlerRun err],
        sent := (sent st \<or> errorHandler_sends c)\<rparr>"

text \<open>
  The closure \<open>next(err)\<close>, up to the point where it calls a function: the error
  branch, the \<open>res.sent\<close> branch, the handler branch with its \<open>try\<close>/\<open>catch\<close> and
  its \<open>.catch\<close>, and the middleware branch \<open>middlewareFns[idx++]\<close>, which starts the
  middleware.
\<close>

definition call_next :: "'e chain \<Rightarrow> 'e option \<Rightarrow> 'e exec_state \<Rightarrow> 'e exec_state" where
  "call_next c err st =
     (case err of
        Some e \<Rightarrow> call_errorHandler c (Some e) st
      | None \<Rightarrow>
          if sent st then st
          else if idx st \<ge> length (middlewareFns c) then
            (let st1 = st\<lparr>trace := trace st @ [HandlerRun],
                          sent := (sent st \<or> t_sends (terminalHandler c))\<rparr>
             in case t_outcome (terminalHandler c) of
                  Returns \<Rightarrow> st1
                | Throws handlerErr \<Rightarrow> call_errorHandler c handlerErr st1
                | Rejects asyncErr \<Rightarrow> st1\<lparr>jobs := jobs st1 @ [HandlerRejected asyncErr]\<rparr>)
          else
            (let f = middlewareFns c ! idx st
             in st\<lparr>idx := idx st + 1,
                   trace := trace st @ [MiddlewareRun (idx st)],
                   stack := (actions f, outcome f) # stack st\<rparr>))"

text \<open>
  One step of a run. The innermost middleware performs its next action; when it has none
  left it ends: a throw is caught and passed to \<open>next(mwErr)\<close>, a rejected promise
  registers \<open>next(asyncErr)\<close>. When no call is in progress the first pending reaction
  runs.
\<close>

definition step :: "'e chain \<Rightarrow> 'e exec_state \<Rightarrow> 'e exec_state" where
  "step c st =
     (case stack st of
        (a # as, out) # frames \<Rightarrow>
          (case a of
             Send \<Rightarrow> st\<lparr>sent := True, stack := (as, out) # frames\<rparr>
           | CallNext err \<Rightarrow> call_next c err (st\<lparr>stack := (as, out) # frames\<rparr>))
      | ([], out) # frames \<Rightarrow>
          (case out of
             Returns \<Rightarrow> st\<lparr>stack := frames\<rparr>
           | Throws mwErr \<Rightarrow> call_next c mwErr (st\<lparr>stack := frames\<rparr>)
           | Rejects asyncErr \<Rightarrow>
               st\<lparr>stack := frames, jobs := jobs st @ [MiddlewareRejected asyncErr]\<rparr>)
      | [] \<Rightarrow>
          (case jobs st of
             [] \<Rightarrow> st
           | MiddlewareRejected asyncErr # js \<Rightarrow> call_next c asyncErr (st\<lparr>jobs := js\<rparr>)
           | HandlerRejected asyncErr # js \<Rightarrow> call_errorHandler c asyncErr (st\<lparr>jobs := js\<rparr>)))"

text \<open>
  A bound on the steps that remain, for the termination of \<open>run\<close>: every middleware is
  started at most once, because the cursor only grows.
\<close>

fun action_weight :: "'e action \<Rightarrow> nat" where
  "action_weight (CallNext _) = 2"
| "action_weight Send = 1"

definition frame_weight :: "'e action list \<Rightarrow> nat" where
  "frame_weight as = 3 + sum_list (map action_weight as)"

fun job_weight :: "'e pending \<Rightarrow> nat" where
  "job_weight (MiddlewareRejected _) = 2"
| "job_weight (HandlerRejected _) = 1"

definition remaining_work :: "'e chain \<Rightarrow> 'e exec_state \<Rightarrow> nat" where
  "remaining_work c st =
     sum_list (map (\<lambda>f. frame_weight (actions f)) (drop (idx st) (middlewareFns c)))
     + sum_list (map (\<lambda>fr. frame_weight (fst fr)) (stack st))
     + sum_list (map job_weight (jobs st))"

text \<open>A run goes on until no call is in progress and no reaction is pending.\<close>

function run :: "'e chain \<Rightarrow> 'e exec_state \<Rightarrow> 'e exec_state" where
  "run c st = (if stack st = [] \<and> jobs st = [] then st else run c (step c st))"
  by pat_completeness auto
termination
proof (relation "measure (\<lambda>(c, st). remaining_work c st)")
  show "wf (measure (\<lambda>(c, st). remaining_work c st))" by simp
next
  fix c :: "'e chain" and st :: "'e exec_state"
  have cn: "remaining_work c (call_next c err s) \<le> remaining_work c s + 1" for err s
    by (auto simp: call_next_def call_errorHandler_def remaining_work_def Let_def
          Cons_nth_drop_Suc [symmetric] split: option.splits outcome.splits)
  have ce: "remaining_work c (call_errorHandler c err s) = remaining_work c s" for err s
    by (simp add: call_errorHandler_def remaining_work_def)
  assume busy: "\<not> (stack st = [] \<and> jobs st = [])"
  have "remaining_work c (step c st) < remaining_work c st"
  proof (cases "stack st")
    case Nil
    with busy obtain j js where j: "jobs st = j # js" by (cases "jobs st") auto
    show ?thesis
    proof (cases j)
      case (MiddlewareRejected e)
      have "remaining_work c (st\<lparr>jobs := js\<rparr>) + 2 = remaining_work c st"
        using j MiddlewareRejected by (simp add: remaining_work_def)
      with cn [of e "st\<lparr>jobs := js\<rparr>"] show ?thesis
        using Nil j MiddlewareRejected by (simp add: step_def)
    next
      case (HandlerRejected e)
      then show ?thesis
        using Nil j by (simp add: step_def ce) (simp add: remaining_work_def)
    qed
  next
    case (Cons fr frames)
    obtain as out where fr: "fr = (as, out)" by (cases fr)
    show ?thesis
    proof (cases as)
      case Nil
      have pop: "remaining_work c (st\<lparr>stack := frames\<rparr>) + 3 = remaining_work c st"
        using Cons fr Nil by (simp add: remaining_work_def frame_weight_def)
      show ?thesis
      proof (cases out)
        case Returns
        with pop show ?thesis using Cons fr Nil by (simp add: step_def)
      next
        case (Throws e)
        with pop cn [of e "st\<lparr>stack := frames\<rparr>"] show ?thesis
          using Cons fr Nil by (simp add: step_def)
      next
        case (Rejects e)
        then show ?thesis
          using Cons fr Nil by (simp add: step_def remaining_work_def frame_weight_def)
      qed
    next
      case (Cons a as')
      show ?thesis
      proof (cases a)
        case (CallNext e)
        have "remaining_work c (st\<lparr>stack := (as', out) # frames\<rparr>) + 2 = remaining_work c st"
          using \<open>stack st = fr # frames\<close> fr Cons CallNext
          by (simp add: remaining_work_def frame_weight_def)
        with cn [of e "st\<lparr>stack := (as', out) # frames\<rparr>"] show ?thesis
          using \<open>stack st = fr # frames\<close> fr Cons CallNext by (simp add: step_def)
      next
        case Send
        then show ?thesis
          using \<open>stack st = fr # frames\<close> fr Cons
          by (simp add: step_def remaining_work_def frame_weight_def)
      qed
    qed
  qed
  then show "((c, step c st), (c, st)) \<in> measure (\<lambda>(c, st). remaining_work c st)"
    by simp
qed

text \<open>
  \<open>execute(middlewareFns, req, res, handler, errorHandler)\<close>: \<open>idx = 0\<close>, then
  \<open>next()\<close>. \<open>sent0\<close> is \<open>res.sent\<close> at the call.
\<close>

definition execute :: "'e chain \<Rightarrow> bool \<Rightarrow> 'e exec_state" where
  "execute c sent0 = run c (call_next c None \<lparr>idx = 0, sent = sent0, trace = [], stack = [], jobs = []\<rparr>)"



text \<open>Predicates on runs used in the properties below.\<close>

fun is_error_event :: "'e event \<Rightarrow> bool" where
  "is_error_event (ErrorHandlerRun _) = True"
| "is_error_event _ = False"

text \<open>
  What may still happen when middleware \<open>i\<close> sends the response first: middleware up
  to \<open>i\<close> and the error handler run, later middleware and the handler do not. The
  invariant \<open>stops_at\<close>: only such calls have been made, and the cursor has not passed
  \<open>i\<close>, or the response is sent, or middleware \<open>i\<close> has just been started.
\<close>

fun allowed_event :: "nat \<Rightarrow> 'e event \<Rightarrow> bool" where
  "allowed_event i (MiddlewareRun j) = (j \<le> i)"
| "allowed_event i HandlerRun = False"
| "allowed_event i (ErrorHandlerRun _) = True"

definition stops_at :: "'e chain \<Rightarrow> nat \<Rightarrow> 'e exec_state \<Rightarrow> bool" where
  "stops_at c i st =
     (list_all (allowed_event i) (trace st)
      \<and> (idx st \<le> i \<or> sent st \<or> (\<exists>rest out frames. stack st = (Send # rest, out) # frames)))"

text \<open>
  A middleware that calls its continuation at most once, as its last action, and then
  returns normally; a chain of such middleware whose handler neither throws nor rejects.
\<close>

fun linear :: "'e action list \<Rightarrow> 'e outcome \<Rightarrow> bool" where
  "linear [] out = True"
| "linear (Send # as) out = linear as out"
| "linear (CallNext e # as) out = (as = [] \<and> out = Returns)"

definition disciplined :: "'e chain \<Rightarrow> bool" where
  "disciplined c =
     (list_all (\<lambda>f. linear (actions f) (outcome f)) (middlewareFns c)
      \<and> t_outcome (terminalHandler c) = Returns)"

text \<open>
  The invariant of such a chain: the calls in progress below the innermost one have
  nothing left to do, and once the handler or the error handler has run, nothing has.
\<close>

definition idle :: "('e action list \<times> 'e outcome) list \<Rightarrow> bool" where
  "idle frames = list_all (\<lambda>fr. fr = ([], Returns)) frames"

definition orderly :: "'e exec_state \<Rightarrow> bool" where
  "orderly st =
     ((case stack st of [] \<Rightarrow> True | fr # frames \<Rightarrow> linear (fst fr) (snd fr) \<and> idle frames)
      \<and> (\<exists>tl. trace st = map MiddlewareRun [0..<idx st] @ tl
            \<and> (case tl of
                  [] \<Rightarrow> jobs st = [] \<or> ((\<exists>e. jobs st = [MiddlewareRejected e]) \<and> idle (stack st))
                | ev # evs \<Rightarrow> evs = [] \<and> (ev = HandlerRun \<or> is_error_event ev)
                               \<and> idle (stack st) \<and> jobs st = [])))"


section \<open>Properties of the middleware registry\<close>

lemma resolve_layers_filter:
  "resolve_layers layers rp acc = acc @ map fn (filter (layer_applies rp) layers)"
proof (induction layers arbitrary: acc)
  case Nil
  show ?case by simp
next
  case (Cons l ls)
  show ?case
    by (cases "path l") (auto simp: Cons.IH layer_applies_def prefix_def)
qed

lemma push_route_middleware_append:
  "push_route_middleware ms acc = acc @ ms"
  by (induction ms arbitrary: acc) simp_all

lemma add_all_snoc:
  "add_all (calls @ [(p, f)]) = chain_add (add_all calls) p f"
  by (simp add: add_all_def)

lemma add_all_fns: "map fn (add_all calls) = map snd calls"
proof (induction calls rule: rev_induct)
  case Nil
  show ?case by (simp add: add_all_def)
next
  case (snoc c cs)
  obtain p f where c: "c = (p, f)" by (cases c)
  show ?case
    unfolding c add_all_snoc using snoc.IH
    by (simp add: chain_add_def Let_def)
qed

text \<open>
  Claim C5. For every sequence of \<open>add\<close> calls and every request path, \<open>resolve\<close> returns
  the functions of exactly the layers that apply (global ones, and scoped ones whose prefix
  equals the request path or is a prefix of it followed by \<open>/\<close>), in the one order in
  which they were registered, followed by the route-level middleware in the order given;
  \<open>add\<close> keeps every function, in call order. Global \<open>G\<close>, then \<open>S\<close> scoped on
  \<open>/api\<close>, with route-level \<open>R\<close>, resolve for \<open>/api/users\<close> to \<open>[G, S, R]\<close>;
  a layer added for \<open>api/\<close> is stored under \<open>/api\<close> and does not apply to
  \<open>/apiv2\<close>.
\<close>

theorem C5_resolve_order:
  "resolve (add_all calls) rp rm =
     map fn (filter (layer_applies rp) (add_all calls)) @ rm
   \<and> map fn (add_all calls) = map snd calls
   \<and> resolve (add_all [(None, G), (Some ''/api'', S)]) ''/api/users'' [R] = [G, S, R]
   \<and> resolve (add_all [(Some ''api/'', S), (None, G)]) ''/apiv2'' [R] = [G, R]"
proof (intro conjI)
  show "resolve (add_all [(Some ''api/'', S), (None, G)]) ''/apiv2'' [R] = [G, R]"
    by (simp add: resolve_def add_all_def chain_add_def truthy_def endsWithSlash_def Let_def)
  show "resolve (add_all calls) rp rm = map fn (filter (layer_applies rp) (add_all calls)) @ rm"
    by (simp add: resolve_def resolve_layers_filter push_route_middleware_append)
  show "map fn (add_all calls) = map snd calls"
    by (rule add_all_fns)
  show "resolve (add_all [(None, G), (Some ''/api'', S)]) ''/api/users'' [R] = [G, S, R]"
    by (simp add: resolve_def add_all_def chain_add_def truthy_def endsWithSlash_def Let_def)
qed


section \<open>Properties of the router\<close>

declare insertStatic_from.simps [simp del]

lemma insertStatic_from_status_pred:
  assumes "\<And>n. P (fst (k n))"
  shows "P (fst (insertStatic_from i parent segment k))"
  using assms
proof (induction i parent segment k rule: insertStatic_from.induct)
  case (1 i parent segment k)
  show ?case
    by (subst insertStatic_from.simps) (simp add: Let_def split_beta 1)
qed

lemma split_on_chars: "s \<in> set (split_on c p) \<Longrightarrow> set s \<subseteq> set p"
proof (induction p arbitrary: s)
  case Nil
  then show ?case by simp
next
  case (Cons x xs)
  then show ?case
    by (cases "split_on c xs") (fastforce split: if_splits)+
qed

lemma splitPath_chars: "s \<in> set (splitPath p) \<Longrightarrow> set s \<subseteq> set p"
  by (auto simp: splitPath_def dest: split_on_chars)

lemma splitPath_nonempty: "s \<in> set (splitPath p) \<Longrightarrow> s \<noteq> []"
  by (simp add: splitPath_def)

lemma insertStatic_from_status_rel:
  assumes "\<And>n. fst (k n) = g (fst (k' n))"
  shows "fst (insertStatic_from i parent segment k) = g (fst (insertStatic_from i parent segment k'))"
  using assms
proof (induction i parent segment k rule: insertStatic_from.induct)
  case (1 i parent segment k)
  show ?case
    by (simp add: insertStatic_from.simps [of i parent segment k]
          insertStatic_from.simps [of i parent segment k'] Let_def split_beta 1)
qed

lemma add_segments_error:
  assumes "offending bad post"
  shows "fst (add_segments (pre @ bad # post) meth entry node)
           = (if param_clash pre node then Some RouteConflictError else Some InvalidRouteError)"
proof (induction pre arbitrary: node)
  case Nil
  from assms show ?case by (auto simp: offending_def)
next
  case (Cons s pre)
  let ?g = "\<lambda>b. if b then Some RouteConflictError else Some InvalidRouteError"
  have k: "\<And>n. fst (add_segments (pre @ bad # post) meth entry n) = ?g (param_clash pre n)"
    using Cons.IH by simp
  show ?case
  proof (cases "prefix '':'' s")
    case True
    with k show ?thesis
      by (auto simp: Let_def split_beta split: option.splits)
  next
    case False
    show ?thesis
    proof (cases "s = ''*''")
      case True
      then show ?thesis by simp
    next
      case ns: False
      have "fst (insertStatic_from 0 node s (add_segments (pre @ bad # post) meth entry))
              = ?g (fst (insertStatic_from 0 node s (\<lambda>n. (param_clash pre n, n))))"
        by (rule insertStatic_from_status_rel) (simp add: k)
      with False ns show ?thesis by (simp add: insertStatic_def)
    qed
  qed
qed

lemma router_add_error:
  assumes "prefix ''/'' p" "splitPath p = pre @ bad # post" "offending bad post"
  shows "fst (router_add r meth p mw h)
           = (if param_clash pre (root r) then Some RouteConflictError else Some InvalidRouteError)"
proof -
  have "bad \<in> set (splitPath p)" using assms(2) by simp
  then have "set bad \<subseteq> set p" by (rule splitPath_chars)
  with assms(3) have ns: "CHR '':'' \<in> set p \<or> CHR ''*'' \<in> set p"
    by (auto simp: offending_def)
  from add_segments_error [OF assms(3), of pre "toUpperCase meth"
         "\<lparr>handler = h, middleware = mw\<rparr>" "root r"]
  show ?thesis
    using assms(1) ns by (auto simp: router_add_def Let_def assms(2) split_beta)
qed

lemma no_clash_without_param_segments:
  fixes node :: "('h, 'm) RadixNode"
  shows "\<forall>s \<in> set pre. \<not> prefix '':'' s \<Longrightarrow> \<not> param_clash pre node"
proof (induction pre arbitrary: node)
  case Nil
  show ?case by simp
next
  case (Cons s pre)
  then have k: "\<not> fst (param_clash pre n, n)" for n :: "('h, 'm) RadixNode" by simp
  from Cons.prems have "\<not> prefix '':'' s" by simp
  with insertStatic_from_status_pred [of "\<lambda>b. \<not> b" "\<lambda>n. (param_clash pre n, n)", OF k]
  show ?case by (simp add: insertStatic_def)
qed

lemma no_clash_on_fresh_node:
  fixes node :: "('h, 'm) RadixNode"
  shows "children node = [] \<Longrightarrow> paramChild node = None \<Longrightarrow> \<not> param_clash pre node"
proof (induction pre arbitrary: node)
  case Nil
  show ?case by simp
next
  case (Cons s pre)
  have fresh: "\<not> param_clash pre (RadixNode l [] hs pn w None wc :: ('h, 'm) RadixNode)"
    for l hs pn w wc
    by (rule Cons.IH) simp_all
  show ?case
    using Cons.prems fresh
    by (simp add: Let_def insertStatic_def insertStatic_from.simps [of 0 node]
          new_RadixNode_def set_paramName_def)
qed


lemma values_nonempty_update:
  "values_nonempty ps \<Longrightarrow> v \<noteq> [] \<Longrightarrow> values_nonempty (AList.update k v ps)"
  by (simp add: values_nonempty_def update_conv')

lemma values_nonempty_delete:
  "values_nonempty ps \<Longrightarrow> values_nonempty (AList.delete k ps)"
  by (simp add: values_nonempty_def delete_conv')

lemma join_slash_nonempty:
  "ss \<noteq> [] \<Longrightarrow> \<forall>s \<in> set ss. s \<noteq> [] \<Longrightarrow> join_slash ss \<noteq> []"
  by (induction ss rule: join_slash.induct) simp_all

lemma search_values_nonempty:
  fixes node :: "('h, 'm) RadixNode" and chs :: "('h, 'm) RadixNode list"
  shows "segIdx \<le> length segments \<Longrightarrow> \<forall>s \<in> set segments. s \<noteq> [] \<Longrightarrow> values_nonempty params
      \<Longrightarrow> values_nonempty (snd (search node segments segIdx params meth))
          \<and> (\<forall>r. fst (search node segments segIdx params meth) = Some r
                 \<longrightarrow> values_nonempty (res_params r))"
    and "segIdx \<le> length segments \<Longrightarrow> \<forall>s \<in> set segments. s \<noteq> [] \<Longrightarrow> values_nonempty params
      \<Longrightarrow> values_nonempty (snd (search_children chs segments segIdx params meth))
          \<and> (\<forall>r. fst (search_children chs segments segIdx params meth) = Some r
                 \<longrightarrow> values_nonempty (res_params r))"
proof (induction node segments segIdx params meth and chs segments segIdx params meth
       rule: search_search_children.induct)
  case (1 lbl chs hs pn wild pc wc segments segIdx params meth)
  show ?case
  proof (cases "segIdx = length segments")
    case True
    then show ?thesis
      using "1.prems" by (auto simp: make_result_def split: option.splits)
  next
    case False
    with "1.prems" have lt: "segIdx < length segments" by simp
    then have seg: "segments ! segIdx \<noteq> []" using "1.prems"(2) by simp
    have join: "join_slash (drop segIdx segments) \<noteq> []"
      using lt "1.prems"(2) by (intro join_slash_nonempty) (auto dest: in_set_dropD)
    obtain r1 p1 where sc: "search_children chs segments segIdx params meth = (r1, p1)"
      by (cases "search_children chs segments segIdx params meth")
    have ih1: "values_nonempty p1 \<and> (\<forall>r. r1 = Some r \<longrightarrow> values_nonempty (res_params r))"
      using "1.IH"(1) [OF False refl] "1.prems" sc by simp
    show ?thesis
    proof (cases r1)
      case (Some r)
      then show ?thesis using False sc ih1 by simp
    next
      case None
      note r1 = None
      define pr where "pr = (case pc of
                         None \<Rightarrow> (None, p1)
                       | Some p \<Rightarrow>
                           (case search p segments (segIdx + 1)
                                   (AList.update (param_key p) (segments ! segIdx) p1) meth of
                              (Some result, params2) \<Rightarrow> (Some result, params2)
                            | (None, params2) \<Rightarrow> (None, AList.delete (param_key p) params2)))"
      have ih2: "values_nonempty (snd pr) \<and> (\<forall>r. fst pr = Some r \<longrightarrow> values_nonempty (res_params r))"
      proof (cases pc)
        case None
        then show ?thesis using ih1 by (simp add: pr_def)
      next
        case (Some p)
        have "values_nonempty (AList.update (param_key p) (segments ! segIdx) p1)"
          using ih1 seg by (simp add: values_nonempty_update)
        from "1.IH"(2) [OF False refl sc [symmetric] r1 Some _ "1.prems"(2) this] lt
        show ?thesis
          using Some
          by (auto simp: pr_def values_nonempty_delete split: prod.splits option.splits)
      qed
      show ?thesis
        using False sc r1 ih2 join
        by (auto simp: pr_def [symmetric] Let_def make_result_def values_nonempty_update
              values_nonempty_delete split: prod.splits option.splits)
    qed
  qed
next
  case (2 segments segIdx params meth)
  then show ?case by simp
next
  case (3 child rest segments segIdx params meth)
  show ?case
  proof (cases "matchStatic child segments segIdx")
    case None
    then show ?thesis using 3 by simp
  next
    case (Some match)
    then have m: "match \<le> length segments"
      by (auto simp: matchStatic_def split: if_splits)
    obtain r1 p1 where s: "search child segments match params meth = (r1, p1)"
      by (cases "search child segments match params meth")
    have ih1: "values_nonempty p1 \<and> (\<forall>r. r1 = Some r \<longrightarrow> values_nonempty (res_params r))"
      using "3.IH"(2) [OF Some m "3.prems"(2,3)] s by simp
    show ?thesis
    proof (cases r1)
      case None
      with "3.IH"(3) [OF Some s [symmetric] None "3.prems"(1,2)] ih1 show ?thesis
        using Some s by simp
    next
      case (Some r)
      then show ?thesis using \<open>matchStatic child segments segIdx = Some match\<close> s ih1 by simp
    qed
  qed
qed

lemma router_find_values_nonempty:
  assumes "router_find r method p = Some res"
  shows "values_nonempty (res_params res)"
proof (cases "map_of (staticRoutes r) (static_key (toUpperCase method) p)")
  case (Some e)
  with assms show ?thesis
    by (auto simp: router_find_def make_result_def values_nonempty_def)
next
  case None
  have "values_nonempty []" by (simp add: values_nonempty_def)
  with search_values_nonempty(1) [of 0 "splitPath p" "[]" "root r" "toUpperCase method"]
  show ?thesis
    using assms None by (auto simp: router_find_def splitPath_nonempty)
qed

subsection \<open>The order of the search at a node, and the rollback of parameters\<close>

text \<open>
  At a node, with a segment left, a match through a static child is returned before the
  parametric child is tried, and a match through the parametric child before the wildcard
  child is. A search that fails leaves in \<open>params\<close> no binding that was not there
  when it started.
\<close>

lemma search_static_first:
  assumes "segIdx < length segments"
    and "search_children (children node) segments segIdx params meth = (Some res, ps)"
  shows "search node segments segIdx params meth = (Some res, ps)"
  using assms by (cases node) simp

lemma search_param_second:
  assumes "segIdx < length segments"
    and "search_children (children node) segments segIdx params meth = (None, ps1)"
    and "paramChild node = Some p"
    and "search p segments (segIdx + 1) (AList.update (param_key p) (segments ! segIdx) ps1) meth
           = (Some res, ps2)"
  shows "search node segments segIdx params meth = (Some res, ps2)"
  using assms by (cases node) simp

lemma search_failure_rolls_back:
  fixes node :: "('h, 'm) RadixNode" and chs :: "('h, 'm) RadixNode list"
  shows "fst (search node segments segIdx params meth) = None
      \<Longrightarrow> map_of (snd (search node segments segIdx params meth)) \<subseteq>\<^sub>m map_of params"
    and "fst (search_children chs segments segIdx params meth) = None
      \<Longrightarrow> map_of (snd (search_children chs segments segIdx params meth)) \<subseteq>\<^sub>m map_of params"
proof (induction node segments segIdx params meth and chs segments segIdx params meth
       rule: search_search_children.induct)
  case (1 lbl chs hs pn wild pc wc segments segIdx params meth)
  show ?case
  proof (cases "segIdx = length segments")
    case True
    with "1.prems" show ?thesis by (auto split: option.splits)
  next
    case False
    obtain r1 p1 where sc: "search_children chs segments segIdx params meth = (r1, p1)"
      by (cases "search_children chs segments segIdx params meth")
    from "1.prems" False sc have r1: "r1 = None" by (auto split: option.splits)
    have le1: "map_of p1 \<subseteq>\<^sub>m map_of params"
      using "1.IH"(1) [OF False refl] sc r1 by simp
    define pr where "pr = (case pc of
                         None \<Rightarrow> (None, p1)
                       | Some p \<Rightarrow>
                           (case search p segments (segIdx + 1)
                                   (AList.update (param_key p) (segments ! segIdx) p1) meth of
                              (Some result, params2) \<Rightarrow> (Some result, params2)
                            | (None, params2) \<Rightarrow> (None, AList.delete (param_key p) params2)))"
    from "1.prems" False sc r1 have pr_none: "fst pr = None"
      by (auto simp: pr_def [symmetric] Let_def split: prod.splits option.splits)
    have le2: "map_of (snd pr) \<subseteq>\<^sub>m map_of p1"
    proof (cases pc)
      case None
      then show ?thesis by (simp add: pr_def)
    next
      case (Some p)
      obtain r2 p2 where sp: "search p segments (segIdx + 1)
                                   (AList.update (param_key p) (segments ! segIdx) p1) meth = (r2, p2)"
        by (cases "search p segments (segIdx + 1)
                                   (AList.update (param_key p) (segments ! segIdx) p1) meth")
      with pr_none Some have r2: "r2 = None" by (auto simp: pr_def split: option.splits)
      from "1.IH"(2) [OF False refl sc [symmetric] r1 Some] sp r2
      have "map_of p2 \<subseteq>\<^sub>m map_of (AList.update (param_key p) (segments ! segIdx) p1)"
        by simp
      then have "map_of (AList.delete (param_key p) p2) \<subseteq>\<^sub>m map_of p1"
        by (auto simp: map_le_def delete_conv' update_conv' dom_def split: if_splits)
      with Some sp r2 show ?thesis by (simp add: pr_def)
    qed
    have le3: "map_of (snd (search (RadixNode lbl chs hs pn wild pc wc) segments segIdx params meth))
                 \<subseteq>\<^sub>m map_of (snd pr)"
      using False sc r1 pr_none "1.prems"
      by (auto simp: pr_def [symmetric] Let_def map_le_def delete_conv' update_conv' dom_def
            split: prod.splits option.splits if_splits)
    from le3 le2 le1 show ?thesis by (blast intro: map_le_trans)
  qed
next
  case (2 segments segIdx params meth)
  show ?case by simp
next
  case (3 child rest segments segIdx params meth)
  show ?case
  proof (cases "matchStatic child segments segIdx")
    case None
    with 3 show ?thesis by simp
  next
    case (Some match)
    obtain r1 p1 where s: "search child segments match params meth = (r1, p1)"
      by (cases "search child segments match params meth")
    from "3.prems" Some s have r1: "r1 = None" by (auto split: option.splits)
    from "3.IH"(2) [OF Some] s r1 have le1: "map_of p1 \<subseteq>\<^sub>m map_of params" by simp
    from "3.prems" Some s r1
    have "fst (search_children rest segments segIdx p1 meth) = None" by simp
    from "3.IH"(3) [OF Some s [symmetric] r1 this]
    have "map_of (snd (search_children rest segments segIdx p1 meth)) \<subseteq>\<^sub>m map_of p1" .
    with le1 Some s r1 show ?thesis by (auto intro: map_le_trans)
  qed
qed

subsection \<open>The code at concrete inputs\<close>

text \<open>The equations that evaluate the router on a concrete input.\<close>

lemmas router_eval =
  register_all_def router_add_def router_find_def tree_walk_def new_Router_def new_RadixNode_def
  toUpperCase_def upper_char_def static_key_def splitPath_def insertStatic_def
  insertStatic_from.simps
  set_children_def set_label_def set_handlers_def set_paramName_def set_isWildcard_def
  set_paramChild_def set_wildcardChild_def matchStatic_def param_key_def make_result_def
  Let_def

text \<open>
  Claim C1 says that every static-cache entry agrees with the tree walk on the same method
  and path. After \<open>GET /api\<close> and \<open>GET /app\<close> are registered (both calls succeed),
  the cache holds \<open>GET:/app\<close> with the second handler, while the tree walk on
  \<open>GET /app\<close> finds nothing: \<open>_insertStatic\<close> has split the edge \<open>api\<close> into
  \<open>ap\<close> with children \<open>i\<close> and \<open>p\<close>, and \<open>_matchStatic\<close> compares a child's
  label with the whole segment \<open>app\<close> only.
\<close>

theorem C1_tree_walk_misses_cached_route:
  "let (errs, r) = register_all [(''GET'', ''/api'', [], 1::nat), (''GET'', ''/app'', ([]::nat list), 2)]
   in errs = [None, None]
      \<and> map_of (staticRoutes r) (static_key ''GET'' ''/app'') = Some \<lparr>handler = 2, middleware = []\<rparr>
      \<and> tree_walk r ''GET'' ''/app'' = None"
  by (simp add: router_eval)

text \<open>
  Claim C4 says that a parametric route wins over a wildcard for the same concrete path.
  With \<open>GET /users/:id\<close>, \<open>GET /user/x\<close> and \<open>GET /*\<close> registered, in this order,
  \<open>find('GET', '/users/42')\<close> returns the wildcard route with \<open>*\<close> bound to
  \<open>users/42\<close>: registering \<open>/user/x\<close> split the edge \<open>users\<close> into \<open>user\<close>
  and \<open>s\<close>, so the search no longer reaches the node that holds the parametric child.
\<close>

theorem C4_wildcard_beats_parametric_route:
  "let (errs, r) = register_all [(''GET'', ''/users/:id'', [], 1::nat), (''GET'', ''/user/x'', ([]::nat list), 2),
                                 (''GET'', ''/*'', [], 3)]
   in errs = [None, None, None]
      \<and> router_find r ''GET'' ''/users/42''
          = Some \<lparr>res_handler = 3, res_params = [(''*'', ''users/42'')], res_middleware = []\<rparr>"
  by (simp add: router_eval)

text \<open>
  Claim C7 says that after a second registration of the same method and path has thrown
  \<open>RouteConflictError\<close>, \<open>find\<close> on that method and path still returns the first
  handler. With \<open>GET /users/:id\<close> and then \<open>GET /user/x\<close> registered, registering
  \<open>GET /users/:id\<close> again throws \<open>RouteConflictError\<close>, and \<open>find\<close> returns
  nothing for \<open>/users/:id\<close> and for \<open>/users/42\<close>: the edge \<open>users\<close> was split
  when \<open>/user/x\<close> was registered.
\<close>

theorem C7_registered_route_unmatchable:
  "let (errs, r) = register_all [(''GET'', ''/users/:id'', [], 1::nat), (''GET'', ''/user/x'', ([]::nat list), 2)];
       (e, r') = router_add r ''GET'' ''/users/:id'' [] 3
   in errs = [None, None] \<and> e = Some RouteConflictError
      \<and> router_find r' ''GET'' ''/users/:id'' = None
      \<and> router_find r' ''GET'' ''/users/42'' = None"
  by (simp add: router_eval)

text \<open>
  Claim C2 says that a call of \<open>add\<close> that throws leaves the router as it was.
  Registering \<open>GET /a/\<close> after \<open>GET /a\<close> throws \<open>RouteConflictError\<close> at the
  terminal node, after \<open>staticRoutes.set\<close> has stored the rejected handler:
  \<open>find('GET', '/a/')\<close> returned the first handler before the call and returns the
  rejected one after it, while the tree still holds the first. Registering
  \<open>GET /user/:\<close> after \<open>GET /users/:id\<close> throws \<open>InvalidRouteError\<close> after the
  edge \<open>users\<close> has been split: \<open>/users/42\<close> matched before the call and does not
  match after it.
\<close>

theorem C2_failed_add_changes_matches:
  "(let (errs, r) = register_all [(''GET'', ''/a'', [], 1::nat)];
        (e, r') = router_add r ''GET'' ''/a/'' ([]::nat list) 2
    in errs = [None] \<and> e = Some RouteConflictError
       \<and> router_find r ''GET'' ''/a/'' = Some \<lparr>res_handler = 1, res_params = [], res_middleware = []\<rparr>
       \<and> router_find r' ''GET'' ''/a/'' = Some \<lparr>res_handler = 2, res_params = [], res_middleware = []\<rparr>
       \<and> tree_walk r' ''GET'' ''/a/'' = Some \<lparr>res_handler = 1, res_params = [], res_middleware = []\<rparr>)
   \<and> (let (errs, r) = register_all [(''GET'', ''/users/:id'', [], 1::nat)];
            (e, r') = router_add r ''GET'' ''/user/:'' ([]::nat list) 2
        in errs = [None] \<and> e = Some InvalidRouteError
           \<and> router_find r ''GET'' ''/users/42''
               = Some \<lparr>res_handler = 1, res_params = [(''id'', ''42'')], res_middleware = []\<rparr>
           \<and> router_find r' ''GET'' ''/users/42'' = None)"
  by (simp add: router_eval)

text \<open>
  Claim C6, as stated, fails. With \<open>GET /a/:x\<close> registered, registering
  \<open>GET /a/:y/:\<close>, whose last segment is a parameter with an empty name, throws
  \<open>RouteConflictError\<close>: the loop reaches the segment \<open>:y\<close> first, and the node
  \<open>a\<close> already has a parametric child named \<open>x\<close>.
\<close>

theorem C6_counterexample:
  "let (errs, r) = register_all [(''GET'', ''/a/:x'', [], 1::nat)]
   in errs = [None]
      \<and> splitPath ''/a/:y/:'' = [''a'', '':y'', '':'']
      \<and> fst (router_add r ''GET'' ''/a/:y/:'' ([]::nat list) 2) = Some RouteConflictError"
  by (simp add: router_eval)


subsection \<open>Validation errors of add\<close>

text \<open>
  Claim C6, amended. \<open>add\<close> throws \<open>InvalidRouteError\<close> whenever the path does not
  start with \<open>/\<close>. When a segment is a parameter with an empty name, or is \<open>*\<close> and
  not the last segment, \<open>add\<close> never returns normally, and which error it throws is
  decided by the segments before that one: \<open>RouteConflictError\<close> when, on the walk
  through them, a parameter segment meets a parametric child registered under another
  name, and \<open>InvalidRouteError\<close> otherwise. There is no such clash when no earlier
  segment is a parameter segment, and none on a new router. In particular
  \<open>/files/*/more\<close>, \<open>/users/:\<close> and \<open>users\<close> are rejected with
  \<open>InvalidRouteError\<close> by every router, \<open>/:id/:\<close> by a new router, and
  \<open>/a/:x/:\<close> by a router that holds \<open>/a/:x\<close>.
\<close>

theorem C6_invalid_route:
  "(\<not> prefix ''/'' p \<longrightarrow> fst (router_add r method p mw h) = Some InvalidRouteError)
   \<and> (prefix ''/'' p \<and> splitPath p = pre @ bad # post \<and> offending bad post
      \<longrightarrow> fst (router_add r method p mw h)
            = (if param_clash pre (root r) then Some RouteConflictError else Some InvalidRouteError))
   \<and> ((\<forall>s \<in> set pre. \<not> prefix '':'' s) \<longrightarrow> \<not> param_clash pre (root r))
   \<and> \<not> param_clash pre (root (new_Router :: ('h, 'm) Router))
   \<and> fst (router_add r method ''/files/*/more'' mw h) = Some InvalidRouteError
   \<and> fst (router_add r method ''/users/:'' mw h) = Some InvalidRouteError
   \<and> fst (router_add r method ''users'' mw h) = Some InvalidRouteError
   \<and> fst (router_add new_Router method ''/:id/:'' mw h) = Some InvalidRouteError
   \<and> fst (router_add (snd (router_add new_Router method ''/a/:x'' mw h)) method ''/a/:x/:'' mw h)
       = Some InvalidRouteError"
  for r :: "('h, 'm) Router"
proof (intro conjI impI)
  show "fst (router_add r method p mw h) = Some InvalidRouteError" if "\<not> prefix ''/'' p"
    using that by (simp add: router_add_def Let_def)
  show "fst (router_add r method p mw h)
            = (if param_clash pre (root r) then Some RouteConflictError else Some InvalidRouteError)"
    if "prefix ''/'' p \<and> splitPath p = pre @ bad # post \<and> offending bad post"
    using router_add_error [of p pre bad post r "method" mw h] that by simp
  show "\<not> param_clash pre (root r)" if "\<forall>s \<in> set pre. \<not> prefix '':'' s"
    using that by (rule no_clash_without_param_segments)
  show "\<not> param_clash pre (root (new_Router :: ('h, 'm) Router))"
    by (rule no_clash_on_fresh_node) (simp_all add: new_Router_def new_RadixNode_def)
  show "fst (router_add r method ''/files/*/more'' mw h) = Some InvalidRouteError"
    using router_add_error [of "''/files/*/more''" "[''files'']" "''*''" "[''more'']" r "method" mw h]
      no_clash_without_param_segments [of "[''files'']" "root r"]
    by (simp add: splitPath_def offending_def)
  show "fst (router_add r method ''/users/:'' mw h) = Some InvalidRouteError"
    using router_add_error [of "''/users/:''" "[''users'']" "'':''" "[]" r "method" mw h]
      no_clash_without_param_segments [of "[''users'']" "root r"]
    by (simp add: splitPath_def offending_def)
  show "fst (router_add r method ''users'' mw h) = Some InvalidRouteError"
    by (simp add: router_add_def Let_def)
  show "fst (router_add new_Router method ''/:id/:'' mw h) = Some InvalidRouteError"
    using router_add_error [of "''/:id/:''" "['':id'']" "'':''" "[]" new_Router "method" mw h]
      no_clash_on_fresh_node [of "root new_Router" "['':id'']"]
    by (simp add: splitPath_def offending_def new_Router_def new_RadixNode_def)
  show "fst (router_add (snd (router_add new_Router method ''/a/:x'' mw h)) method ''/a/:x/:'' mw h)
       = Some InvalidRouteError"
    by (simp add: router_eval)
qed


text \<open>
  The hypotheses at concrete inputs, on a router that holds \<open>GET /a/:x\<close>:
  \<open>/a/:y/:\<close>, where \<open>:y\<close> clashes with \<open>x\<close>; \<open>/a/:x/*/b\<close>, where nothing
  clashes; and \<open>a/b\<close>.
\<close>

theorem C6_invalid_route_witness:
  "prefix ''/'' ''/a/:y/:'' \<and> splitPath ''/a/:y/:'' = [''a'', '':y''] @ '':'' # []
   \<and> offending '':'' []
   \<and> param_clash [''a'', '':y''] (root (snd (register_all [(''GET'', ''/a/:x'', [], 1::nat)]) :: (nat, nat) Router))
   \<and> fst (router_add (snd (register_all [(''GET'', ''/a/:x'', [], 1::nat)])) ''GET'' ''/a/:y/:'' ([]::nat list) 2)
       = Some RouteConflictError
   \<and> splitPath ''/a/:x/*/b'' = [''a'', '':x''] @ ''*'' # [''b'']
   \<and> \<not> param_clash [''a'', '':x''] (root (snd (register_all [(''GET'', ''/a/:x'', [], 1::nat)]) :: (nat, nat) Router))
   \<and> fst (router_add (snd (register_all [(''GET'', ''/a/:x'', [], 1::nat)])) ''GET'' ''/a/:x/*/b'' ([]::nat list) 2)
       = Some InvalidRouteError
   \<and> \<not> prefix ''/'' ''a/b''
   \<and> fst (router_add (snd (register_all [(''GET'', ''/a/:x'', [], 1::nat)])) ''GET'' ''a/b'' ([]::nat list) 2)
       = Some InvalidRouteError"
  using C6_invalid_route [of "''/a/:y/:''" "snd (register_all [(''GET'', ''/a/:x'', [], 1::nat)])"
          "''GET''" "[]::nat list" "2::nat" "[''a'', '':y'']" "'':''" "[]"]
        C6_invalid_route [of "''/a/:x/*/b''" "snd (register_all [(''GET'', ''/a/:x'', [], 1::nat)])"
          "''GET''" "[]::nat list" "2::nat" "[''a'', '':x'']" "''*''" "[''b'']"]
        C6_invalid_route [of "''a/b''" "snd (register_all [(''GET'', ''/a/:x'', [], 1::nat)])"
          "''GET''" "[]::nat list" "2::nat" "[]" "'':''" "[]"]
  by (simp add: router_eval offending_def)

subsection \<open>What a failing add leaves behind\<close>

lemma staticRoutes_router_add:
  "map_of (staticRoutes r) key = Some e
   \<Longrightarrow> map_of (staticRoutes (snd (router_add r method p mw h))) key = Some e"
  by (auto simp: router_add_def Let_def split_beta update_conv')

text \<open>
  The two checks that come before the walk throw before anything is written, and no call
  of \<open>add\<close> changes what \<open>find\<close> returns for a method and path that the static
  cache already holds.
\<close>

lemma early_failure_leaves_router:
  "(\<not> prefix ''/'' p \<longrightarrow> router_add r method p mw h = (Some InvalidRouteError, r))
   \<and> (prefix ''/'' p \<and> CHR '':'' \<notin> set p \<and> CHR ''*'' \<notin> set p
        \<and> map_of (staticRoutes r) (static_key (toUpperCase method) p) \<noteq> None
      \<longrightarrow> router_add r method p mw h = (Some RouteConflictError, r))
   \<and> (map_of (staticRoutes r) (static_key (toUpperCase method') q) \<noteq> None
      \<longrightarrow> router_find (snd (router_add r method p mw h)) method' q = router_find r method' q)"
proof (intro conjI impI)
  show "router_add r method p mw h = (Some InvalidRouteError, r)" if "\<not> prefix ''/'' p"
    using that by (simp add: router_add_def Let_def)
  show "router_add r method p mw h = (Some RouteConflictError, r)"
    if "prefix ''/'' p \<and> CHR '':'' \<notin> set p \<and> CHR ''*'' \<notin> set p
        \<and> map_of (staticRoutes r) (static_key (toUpperCase method) p) \<noteq> None"
    using that by (simp add: router_add_def Let_def)
  show "router_find (snd (router_add r method p mw h)) method' q = router_find r method' q"
    if "map_of (staticRoutes r) (static_key (toUpperCase method') q) \<noteq> None"
  proof -
    from that obtain e where e: "map_of (staticRoutes r) (static_key (toUpperCase method') q) = Some e"
      by auto
    from staticRoutes_router_add [OF e] e show ?thesis
      by (simp add: router_find_def Let_def)
  qed
qed

subsection \<open>A wildcard route on its own\<close>

lemma insertStatic_from_label:
  "label (snd (insertStatic_from i parent segment k)) = label parent"
proof (induction i parent segment k rule: insertStatic_from.induct)
  case (1 i parent segment k)
  show ?case
    by (subst insertStatic_from.simps) (simp add: Let_def split_beta 1 set_children_def)
qed

lemma add_segments_label:
  "label (snd (add_segments segs meth entry node)) = label node"
proof (cases segs)
  case Nil
  then show ?thesis by (simp add: set_handlers_def)
next
  case (Cons s rest)
  then show ?thesis
    by (auto simp: Let_def split_beta insertStatic_def insertStatic_from_label
          set_paramChild_def set_wildcardChild_def split: option.splits)
qed

lemma wildcard_only_search:
  assumes "\<forall>s \<in> set pre. \<not> prefix '':'' s \<and> s \<noteq> ''*''" and "rest \<noteq> []"
  shows "drop segIdx segments = pre @ rest
     \<Longrightarrow> fst (add_segments (pre @ [''*'']) meth entry (new_RadixNode l)) = None
       \<and> search (snd (add_segments (pre @ [''*'']) meth entry (new_RadixNode l)))
                segments segIdx params meth
          = (Some (make_result entry (AList.update ''*'' (join_slash rest) params)),
             AList.update ''*'' (join_slash rest) params)"
  using assms(1)
proof (induction pre arbitrary: l segIdx)
  case Nil
  then have lt: "segIdx \<noteq> length segments" using assms(2) by auto
  from Nil show ?case
    using lt
    by (simp add: new_RadixNode_def set_isWildcard_def set_wildcardChild_def set_handlers_def
          Let_def)
next
  case (Cons s pre)
  from Cons.prems(1) have lt: "segIdx < length segments"
    by (metis drop_eq_Nil2 list.distinct(1) append_Cons not_le_imp_less)
  from Cons.prems(1) have hd: "segments ! segIdx = s"
    by (metis lt hd_drop_conv_nth list.sel(1) append_Cons)
  from Cons.prems(1) have dr: "drop (Suc segIdx) segments = pre @ rest"
    by (metis drop_Suc tl_drop list.sel(3) append_Cons)
  from Cons.prems(2) have st: "\<not> prefix '':'' s" "s \<noteq> ''*''" and pre: "\<forall>s \<in> set pre. \<not> prefix '':'' s \<and> s \<noteq> ''*''"
    by simp_all
  note IH = Cons.IH [OF dr pre, of s]
  obtain r n where k: "add_segments (pre @ [''*'']) meth entry (new_RadixNode s) = (r, n)"
    by (cases "add_segments (pre @ [''*'']) meth entry (new_RadixNode s)")
  with IH have r: "r = None"
    and sn: "search n segments (Suc segIdx) params meth
          = (Some (make_result entry (AList.update ''*'' (join_slash rest) params)),
             AList.update ''*'' (join_slash rest) params)"
    by simp_all
  from add_segments_label [of "pre @ [''*'']" meth entry "new_RadixNode s"] k
  have lab: "label n = s" by (simp add: new_RadixNode_def)
  have ins: "add_segments ((s # pre) @ [''*'']) meth entry (new_RadixNode l)
              = (r, set_children (new_RadixNode l) [n])"
    using st k
    by (simp add: insertStatic_def, subst insertStatic_from.simps)
       (simp add: new_RadixNode_def set_children_def)
  show ?case
    unfolding ins using r sn lab lt hd
    by (simp add: set_children_def new_RadixNode_def matchStatic_def)
qed

lemma wildcard_only_route:
  assumes "prefix ''/'' rp" "splitPath rp = pre @ [''*'']"
    and "\<forall>s \<in> set pre. \<not> prefix '':'' s \<and> s \<noteq> ''*''"
    and "splitPath q = pre @ rest" "rest \<noteq> []"
  shows "router_add new_Router meth rp mw h
           = (None, snd (router_add new_Router meth rp mw h))
       \<and> router_find (snd (router_add new_Router meth rp mw h)) meth q
           = Some \<lparr>res_handler = h, res_params = [(''*'', join_slash rest)], res_middleware = mw\<rparr>"
proof -
  have "''*'' \<in> set (splitPath rp)" using assms(2) by simp
  then have "set ''*'' \<subseteq> set rp" by (rule splitPath_chars)
  then have star: "CHR ''*'' \<in> set rp" by simp
  from wildcard_only_search [OF assms(3,5), of 0 "splitPath q" "toUpperCase meth"
         "\<lparr>handler = h, middleware = mw\<rparr>" "[]" "[]"] assms(4)
  show ?thesis
    using assms(1,2) star
    by (simp add: router_add_def router_find_def new_Router_def Let_def split_beta make_result_def)
qed

subsection \<open>Wildcard matches\<close>









text \<open>
  A wildcard route whose parent edge has been split inside a segment is not reached along
  whole segments, and the statement above says nothing about it: after \<open>/files/*\<close> and
  \<open>/file\<close>, the edge \<open>files\<close> is \<open>file\<close> and \<open>s\<close>, and
  \<open>find('GET', '/files/a/b/c.txt')\<close> finds nothing.
\<close>

lemma wildcard_parent_lost_after_split:
  "let (errs, r) = register_all [(''GET'', ''/files/*'', [], 1::nat), (''GET'', ''/file'', ([]::nat list), 2)]
   in errs = [None, None]
      \<and> router_find r ''GET'' ''/files/a/b/c.txt'' = None
      \<and> wildcard_at [StaticChild 0] (root r) (splitPath ''/files/a/b/c.txt'') 0 = None"
  by (simp add: router_eval)

text \<open>
  Claim C10. In every router state, a result of \<open>find\<close> never binds \<open>*\<close> to the
  empty string. When no segment is left, \<open>_search\<close> returns the entry of the node's own
  \<open>handlers\<close> for the method, or nothing: the wildcard child is not consulted. For
  \<open>GET /files/*\<close> alone, \<open>find('GET', '/files')\<close> finds nothing.
\<close>

theorem C10_wildcard_value_nonempty:
  "(router_find r method p = Some res \<longrightarrow> map_of (res_params res) ''*'' \<noteq> Some [])
   \<and> search node segments (length segments) params method
       = (map_option (\<lambda>route. make_result route params) (map_of (handlers node) method), params)
   \<and> router_find (snd (register_all [(''GET'', ''/files/*'', mw, h)])) ''GET'' ''/files'' = None"
proof (intro conjI impI)
  show "map_of (res_params res) ''*'' \<noteq> Some []" if "router_find r method p = Some res"
    using router_find_values_nonempty [OF that] by (simp add: values_nonempty_def)
  show "search node segments (length segments) params method
       = (map_option (\<lambda>route. make_result route params) (map_of (handlers node) method), params)"
    by (cases node) (simp split: option.splits)
  show "router_find (snd (register_all [(''GET'', ''/files/*'', mw, h)])) ''GET'' ''/files'' = None"
    by (simp add: router_eval)
qed

text \<open>The hypothesis at a concrete input: \<open>/files/a/b\<close> against \<open>GET /files/*\<close>.\<close>

theorem C10_wildcard_value_nonempty_witness:
  "router_find (snd (register_all [(''GET'', ''/files/*'', [], 1::nat)])) ''GET'' ''/files/a/b''
     = Some \<lparr>res_handler = 1::nat, res_params = [(''*'', ''a/b'')], res_middleware = ([]::nat list)\<rparr>
   \<and> map_of (res_params \<lparr>res_handler = 1::nat, res_params = [(''*'', ''a/b'')], res_middleware = ([]::nat list)\<rparr>) ''*''
       \<noteq> Some []"
  using C10_wildcard_value_nonempty [of "snd (register_all [(''GET'', ''/files/*'', [], 1::nat)])" "''GET''"
          "''/files/a/b''"
          "\<lparr>res_handler = 1::nat, res_params = [(''*'', ''a/b'')], res_middleware = ([]::nat list)\<rparr>"]
  by (simp add: router_eval)


section \<open>Properties of the chain executor\<close>

declare run.simps [simp del]

lemmas exec_eval =
  execute_def run.simps step_def call_next_def call_errorHandler_def Let_def

subsection \<open>Once the response is sent\<close>

lemma call_next_sent:
  "sent st \<Longrightarrow> \<exists>evs. trace (call_next c err st) = trace st @ evs \<and> list_all is_error_event evs
      \<and> sent (call_next c err st)"
  by (cases err) (simp_all add: call_next_def call_errorHandler_def)

lemma step_sent:
  assumes "sent st"
  shows "\<exists>evs. trace (step c st) = trace st @ evs \<and> list_all is_error_event evs \<and> sent (step c st)"
proof (cases "stack st")
  case Nil
  show ?thesis
  proof (cases "jobs st")
    case Nil
    with \<open>stack st = []\<close> assms show ?thesis by (simp add: step_def)
  next
    case (Cons j js)
    show ?thesis
    proof (cases j)
      case (MiddlewareRejected e)
      with call_next_sent [of "st\<lparr>jobs := js\<rparr>" c e] assms \<open>stack st = []\<close> Cons
      show ?thesis by (simp add: step_def)
    next
      case (HandlerRejected e)
      with assms \<open>stack st = []\<close> Cons show ?thesis
        by (simp add: step_def call_errorHandler_def)
    qed
  qed
next
  case (Cons fr frames)
  obtain as out where fr: "fr = (as, out)" by (cases fr)
  show ?thesis
  proof (cases as)
    case Nil
    show ?thesis
    proof (cases out)
      case Returns
      with assms Cons fr Nil show ?thesis by (simp add: step_def)
    next
      case (Throws e)
      with call_next_sent [of "st\<lparr>stack := frames\<rparr>" c e] assms Cons fr Nil
      show ?thesis by (simp add: step_def)
    next
      case (Rejects e)
      with assms Cons fr Nil show ?thesis by (simp add: step_def)
    qed
  next
    case (Cons a as')
    show ?thesis
    proof (cases a)
      case (CallNext e)
      with call_next_sent [of "st\<lparr>stack := (as', out) # frames\<rparr>" c e] assms
        \<open>stack st = fr # frames\<close> fr Cons
      show ?thesis by (simp add: step_def)
    next
      case Send
      with assms \<open>stack st = fr # frames\<close> fr Cons show ?thesis by (simp add: step_def)
    qed
  qed
qed

lemma run_sent:
  "sent st \<Longrightarrow> \<exists>evs. trace (run c st) = trace st @ evs \<and> list_all is_error_event evs"
proof (induction c st rule: run.induct)
  case (1 c st)
  show ?case
  proof (cases "stack st = [] \<and> jobs st = []")
    case True
    then show ?thesis by (subst run.simps) simp
  next
    case False
    from step_sent [OF "1.prems", of c] obtain evs where
      evs: "trace (step c st) = trace st @ evs" "list_all is_error_event evs" "sent (step c st)"
      by blast
    from "1.IH" [OF False evs(3)] obtain evs' where
      "trace (run c (step c st)) = trace (step c st) @ evs'" "list_all is_error_event evs'"
      by blast
    with evs False show ?thesis
      by (subst run.simps) (auto intro!: exI [of _ "evs @ evs'"])
  qed
qed

subsection \<open>A middleware that sends first\<close>

lemma call_next_stops_at:
  assumes "i < length (middlewareFns c)" "\<exists>rest. actions (middlewareFns c ! i) = Send # rest"
    and "list_all (allowed_event i) (trace s)" "idx s \<le> i \<or> sent s"
  shows "stops_at c i (call_next c err s)"
proof (cases err)
  case (Some e)
  with assms(3,4) show ?thesis
    by (auto simp: stops_at_def call_next_def call_errorHandler_def)
next
  case None
  show ?thesis
  proof (cases "sent s")
    case True
    with None assms(3) show ?thesis by (simp add: stops_at_def call_next_def)
  next
    case False
    with assms(4) have le: "idx s \<le> i" by simp
    with assms(1) have lt: "idx s < length (middlewareFns c)" by simp
    show ?thesis
    proof (cases "idx s = i")
      case True
      with None False lt assms(2,3) show ?thesis
        by (auto simp: stops_at_def call_next_def Let_def)
    next
      case ne: False
      with le have "Suc (idx s) \<le> i" by simp
      with None False lt assms(3) le show ?thesis
        by (simp add: stops_at_def call_next_def Let_def)
    qed
  qed
qed

lemma step_stops_at:
  assumes "i < length (middlewareFns c)" "\<exists>rest. actions (middlewareFns c ! i) = Send # rest"
    and "stops_at c i st"
  shows "stops_at c i (step c st)"
proof -
  note cn = call_next_stops_at [OF assms(1,2)]
  from assms(3) have tr: "list_all (allowed_event i) (trace st)" by (simp add: stops_at_def)
  show ?thesis
  proof (cases "stack st")
    case Nil
    with assms(3) have cond: "idx st \<le> i \<or> sent st" by (simp add: stops_at_def)
    show ?thesis
    proof (cases "jobs st")
      case Nil
      with \<open>stack st = []\<close> assms(3) show ?thesis by (simp add: step_def)
    next
      case (Cons j js)
      show ?thesis
      proof (cases j)
        case (MiddlewareRejected e)
        with cn [of "st\<lparr>jobs := js\<rparr>" e] tr cond \<open>stack st = []\<close> Cons
        show ?thesis by (simp add: step_def)
      next
        case (HandlerRejected e)
        with tr cond \<open>stack st = []\<close> Cons show ?thesis
          by (auto simp: step_def call_errorHandler_def stops_at_def)
      qed
    qed
  next
    case (Cons fr frames)
    obtain as out where fr: "fr = (as, out)" by (cases fr)
    show ?thesis
    proof (cases as)
      case Nil
      with assms(3) Cons fr have cond: "idx st \<le> i \<or> sent st" by (simp add: stops_at_def)
      show ?thesis
      proof (cases out)
        case Returns
        with tr cond Cons fr Nil show ?thesis by (auto simp: step_def stops_at_def)
      next
        case (Throws e)
        with cn [of "st\<lparr>stack := frames\<rparr>" e] tr cond Cons fr Nil
        show ?thesis by (simp add: step_def)
      next
        case (Rejects e)
        with tr cond Cons fr Nil show ?thesis by (auto simp: step_def stops_at_def)
      qed
    next
      case (Cons a as')
      show ?thesis
      proof (cases a)
        case (CallNext e)
        with assms(3) \<open>stack st = fr # frames\<close> fr Cons
        have cond: "idx st \<le> i \<or> sent st" by (simp add: stops_at_def)
        with cn [of "st\<lparr>stack := (as', out) # frames\<rparr>" e] tr
          \<open>stack st = fr # frames\<close> fr Cons CallNext
        show ?thesis by (simp add: step_def)
      next
        case Send
        with tr \<open>stack st = fr # frames\<close> fr Cons show ?thesis
          by (simp add: step_def stops_at_def)
      qed
    qed
  qed
qed

lemma run_stops_at:
  "i < length (middlewareFns c) \<Longrightarrow> \<exists>rest. actions (middlewareFns c ! i) = Send # rest
   \<Longrightarrow> stops_at c i st \<Longrightarrow> stops_at c i (run c st)"
proof (induction c st rule: run.induct)
  case (1 c st)
  show ?case
  proof (cases "stack st = [] \<and> jobs st = []")
    case True
    with "1.prems" show ?thesis by (subst run.simps) simp
  next
    case False
    from "1.IH" [OF False "1.prems"(1,2) step_stops_at [OF "1.prems"]] False
    show ?thesis by (subst run.simps) auto
  qed
qed

lemma execute_stops_at:
  assumes "i < length (middlewareFns c)" "\<exists>rest. actions (middlewareFns c ! i) = Send # rest"
  shows "list_all (allowed_event i) (trace (execute c sent0))"
proof -
  have "stops_at c i (call_next c None \<lparr>idx = 0, sent = sent0, trace = [], stack = [], jobs = []\<rparr>)"
    by (rule call_next_stops_at [OF assms]) simp_all
  from run_stops_at [OF assms this] show ?thesis
    by (simp add: execute_def stops_at_def)
qed

subsection \<open>Chains that call the continuation last\<close>

lemma idle_frames_ok:
  "idle frames \<Longrightarrow> (case frames of [] \<Rightarrow> True | fr # frs \<Rightarrow> linear (fst fr) (snd fr) \<and> idle frs)"
  by (cases frames) (auto simp: idle_def)

lemma call_next_orderly:
  assumes "disciplined c" "idle (stack s)" "jobs s = []"
    and "trace s = map MiddlewareRun [0..<idx s]"
  shows "orderly (call_next c err s)"
proof (cases err)
  case (Some e)
  then show ?thesis
    using assms idle_frames_ok [OF assms(2)]
    by (simp add: orderly_def call_next_def call_errorHandler_def)
next
  case None
  show ?thesis
  proof (cases "sent s")
    case True
    with None show ?thesis
      using assms idle_frames_ok [OF assms(2)] by (simp add: orderly_def call_next_def)
  next
    case False
    show ?thesis
    proof (cases "idx s \<ge> length (middlewareFns c)")
      case True
      with None False show ?thesis
        using assms idle_frames_ok [OF assms(2)]
        by (simp add: orderly_def call_next_def disciplined_def)
    next
      case ge: False
      then have "linear (actions (middlewareFns c ! idx s)) (outcome (middlewareFns c ! idx s))"
        using assms(1) by (simp add: disciplined_def list_all_length)
      with None False ge show ?thesis
        using assms by (simp add: orderly_def call_next_def Let_def)
    qed
  qed
qed

lemma step_orderly:
  assumes "disciplined c" "orderly st"
  shows "orderly (step c st)"
proof (cases "stack st")
  case Nil
  show ?thesis
  proof (cases "jobs st")
    case Nil
    with \<open>stack st = []\<close> assms(2) show ?thesis by (simp add: step_def)
  next
    case (Cons j js)
    from assms(2) obtain tl where
      tl: "trace st = map MiddlewareRun [0..<idx st] @ tl"
      and c: "case tl of
                [] \<Rightarrow> jobs st = [] \<or> ((\<exists>e. jobs st = [MiddlewareRejected e]) \<and> idle (stack st))
              | ev # evs \<Rightarrow> evs = [] \<and> (ev = HandlerRun \<or> is_error_event ev)
                             \<and> idle (stack st) \<and> jobs st = []"
      unfolding orderly_def by blast
    from c Cons have "tl = []" by (cases tl) simp_all
    with c Cons tl obtain e where j: "j = MiddlewareRejected e" "js = []"
      and tr: "trace st = map MiddlewareRun [0..<idx st]"
      by auto
    have "orderly (call_next c e (st\<lparr>jobs := []\<rparr>))"
      using Nil tr by (intro call_next_orderly [OF assms(1)]) (simp_all add: idle_def)
    with Nil Cons j show ?thesis by (simp add: step_def)
  qed
next
  case (Cons fr frames)
  obtain as out where fr: "fr = (as, out)" by (cases fr)
  from assms(2) Cons fr have lin: "linear as out" and idl: "idle frames"
    by (simp_all add: orderly_def)
  have busy: "trace st = map MiddlewareRun [0..<idx st] \<and> jobs st = []"
    if "(as, out) \<noteq> ([], Returns)"
  proof -
    from assms(2) obtain tl where
      tl: "trace st = map MiddlewareRun [0..<idx st] @ tl"
      and c: "case tl of
                [] \<Rightarrow> jobs st = [] \<or> ((\<exists>e. jobs st = [MiddlewareRejected e]) \<and> idle (stack st))
              | ev # evs \<Rightarrow> evs = [] \<and> (ev = HandlerRun \<or> is_error_event ev)
                             \<and> idle (stack st) \<and> jobs st = []"
      unfolding orderly_def by blast
    have ni: "\<not> idle (stack st)" using Cons fr that by (auto simp: idle_def)
    with c have "tl = []" by (cases tl) simp_all
    with c ni tl show ?thesis by simp
  qed
  show ?thesis
  proof (cases as)
    case Nil
    show ?thesis
    proof (cases out)
      case Returns
      with assms(2) Cons fr Nil idle_frames_ok [OF idl] show ?thesis
        by (auto simp: step_def orderly_def idle_def split: list.splits)
    next
      case (Throws e)
      with busy Nil have b: "trace st = map MiddlewareRun [0..<idx st]" "jobs st = []" by simp_all
      have "orderly (call_next c e (st\<lparr>stack := frames\<rparr>))"
        using b idl by (intro call_next_orderly [OF assms(1)]) simp_all
      with Cons fr Nil Throws show ?thesis by (simp add: step_def)
    next
      case (Rejects e)
      with busy Nil have b: "trace st = map MiddlewareRun [0..<idx st]" "jobs st = []" by simp_all
      with Cons fr Nil Rejects idl idle_frames_ok [OF idl] show ?thesis
        by (simp add: step_def orderly_def)
    qed
  next
    case (Cons a as')
    with busy have b: "trace st = map MiddlewareRun [0..<idx st]" "jobs st = []" by simp_all
    show ?thesis
    proof (cases a)
      case (CallNext e)
      with lin Cons have as': "as' = []" "out = Returns" by simp_all
      have "orderly (call_next c e (st\<lparr>stack := ([], Returns) # frames\<rparr>))"
        using b idl by (intro call_next_orderly [OF assms(1)]) (simp_all add: idle_def)
      with \<open>stack st = fr # frames\<close> fr Cons CallNext as' show ?thesis by (simp add: step_def)
    next
      case Send
      with lin Cons have "linear as' out" by simp
      with \<open>stack st = fr # frames\<close> fr Cons Send b idl show ?thesis
        by (simp add: step_def orderly_def)
    qed
  qed
qed

lemma run_orderly:
  "disciplined c \<Longrightarrow> orderly st \<Longrightarrow> orderly (run c st)"
proof (induction c st rule: run.induct)
  case (1 c st)
  show ?case
  proof (cases "stack st = [] \<and> jobs st = []")
    case True
    with "1.prems" show ?thesis by (subst run.simps) simp
  next
    case False
    from "1.IH" [OF False "1.prems"(1) step_orderly [OF "1.prems"]] False
    show ?thesis by (subst run.simps) auto
  qed
qed

lemma execute_orderly:
  assumes "disciplined c"
  shows "orderly (execute c sent0)"
proof -
  have "orderly (call_next c None \<lparr>idx = 0, sent = sent0, trace = [], stack = [], jobs = []\<rparr>)"
    by (rule call_next_orderly [OF assms]) (simp_all add: idle_def)
  from run_orderly [OF assms this] show ?thesis by (simp add: execute_def)
qed

text \<open>
  Claim C3, amended. In a chain where every middleware calls its continuation at most once,
  as its last action, and then returns normally, and where the terminal handler neither
  throws nor rejects, \<open>execute\<close> runs the middleware in order and then at most one of
  the terminal handler and the error callback, and nothing after it. In every chain, a
  continuation call that carries an error invokes the error callback and nothing else: it
  starts no middleware and not the handler, and it leaves the cursor where it was.
\<close>

theorem C3_at_most_one_terminal_call:
  "(disciplined c \<longrightarrow>
      (\<exists>k tl. trace (execute c sent0) = map MiddlewareRun [0..<k] @ tl
          \<and> (tl = [] \<or> tl = [HandlerRun] \<or> (\<exists>e. tl = [ErrorHandlerRun e]))))
   \<and> call_next c (Some e) st
       = st\<lparr>trace := trace st @ [ErrorHandlerRun (Some e)], sent := (sent st \<or> errorHandler_sends c)\<rparr>"
proof (intro conjI impI)
  assume "disciplined c"
  from execute_orderly [OF this, of sent0] obtain tl where
    tl: "trace (execute c sent0) = map MiddlewareRun [0..<idx (execute c sent0)] @ tl"
    and c: "case tl of
                [] \<Rightarrow> jobs (execute c sent0) = []
                        \<or> ((\<exists>e. jobs (execute c sent0) = [MiddlewareRejected e])
                            \<and> idle (stack (execute c sent0)))
              | ev # evs \<Rightarrow> evs = [] \<and> (ev = HandlerRun \<or> is_error_event ev)
                             \<and> idle (stack (execute c sent0)) \<and> jobs (execute c sent0) = []"
    unfolding orderly_def by blast
  from c have shape: "case tl of [] \<Rightarrow> True | ev # evs \<Rightarrow> evs = [] \<and> (ev = HandlerRun \<or> is_error_event ev)"
    by (cases tl) simp_all
  have "tl = [] \<or> tl = [HandlerRun] \<or> (\<exists>e. tl = [ErrorHandlerRun e])"
  proof (cases tl)
    case Nil
    then show ?thesis by simp
  next
    case (Cons ev evs)
    with shape show ?thesis by (cases ev) auto
  qed
  with tl show "\<exists>k tl. trace (execute c sent0) = map MiddlewareRun [0..<k] @ tl
          \<and> (tl = [] \<or> tl = [HandlerRun] \<or> (\<exists>e. tl = [ErrorHandlerRun e]))"
    by blast
next
  show "call_next c (Some e) st
       = st\<lparr>trace := trace st @ [ErrorHandlerRun (Some e)], sent := (sent st \<or> errorHandler_sends c)\<rparr>"
    by (simp add: call_next_def call_errorHandler_def)
qed

subsection \<open>The executor at concrete inputs\<close>

text \<open>
  Claim C3, as stated, fails. With no middleware and a terminal handler that throws, the
  handler runs and then the error callback runs: both are invoked. With one middleware
  that calls \<open>next(err)\<close> and then \<open>next()\<close>, the error callback runs and the
  terminal handler runs after it: \<open>next\<close> keeps no record of the error.
\<close>

theorem C3_counterexample:
  "trace (execute \<lparr>middlewareFns = [],
                   terminalHandler = \<lparr>t_sends = False, t_outcome = Throws (Some (1::nat))\<rparr>,
                   errorHandler_sends = False\<rparr> False)
     = [HandlerRun, ErrorHandlerRun (Some 1)]
   \<and> trace (execute \<lparr>middlewareFns = [\<lparr>actions = [CallNext (Some (1::nat)), CallNext None],
                                         outcome = Returns\<rparr>],
                       terminalHandler = \<lparr>t_sends = False, t_outcome = Returns\<rparr>,
                       errorHandler_sends = False\<rparr> False)
       = [MiddlewareRun 0, ErrorHandlerRun (Some 1), HandlerRun]"
  by (simp add: exec_eval)

text \<open>
  The hypothesis of the amended claim at a concrete chain: the first middleware calls
  \<open>next(err)\<close>, the second would call \<open>next()\<close>.
\<close>

theorem C3_at_most_one_terminal_call_witness:
  "disciplined \<lparr>middlewareFns = [\<lparr>actions = [CallNext (Some (1::nat))], outcome = Returns\<rparr>,
                                 \<lparr>actions = [CallNext None], outcome = Returns\<rparr>],
               terminalHandler = \<lparr>t_sends = True, t_outcome = Returns\<rparr>,
               errorHandler_sends = True\<rparr>
   \<and> (\<exists>k tl. trace (execute \<lparr>middlewareFns = [\<lparr>actions = [CallNext (Some (1::nat))], outcome = Returns\<rparr>,
                                 \<lparr>actions = [CallNext None], outcome = Returns\<rparr>],
               terminalHandler = \<lparr>t_sends = True, t_outcome = Returns\<rparr>,
               errorHandler_sends = True\<rparr> False) = map MiddlewareRun [0..<k] @ tl
          \<and> (tl = [] \<or> tl = [HandlerRun] \<or> (\<exists>e. tl = [ErrorHandlerRun e])))"
  using C3_at_most_one_terminal_call [of "\<lparr>middlewareFns = [\<lparr>actions = [CallNext (Some (1::nat))], outcome = Returns\<rparr>,
                                 \<lparr>actions = [CallNext None], outcome = Returns\<rparr>],
               terminalHandler = \<lparr>t_sends = True, t_outcome = Returns\<rparr>,
               errorHandler_sends = True\<rparr>" False]
  by (simp add: disciplined_def)

text \<open>
  Claim C9. When the response is already sent, a continuation call without an error
  returns at once and changes nothing: no middleware, no handler and no error callback
  is invoked by it. From any state of a run in which the response is sent, the rest of
  the run invokes nothing but the error callback (for errors raised later). A middleware
  whose first action is to send the response, whatever it does afterwards, is the last
  middleware to run, and the terminal handler does not run. The chain of the test
  \<open>should stop chain if response is already sent\<close> runs its first middleware only.
\<close>

theorem C9_stop_when_sent:
  "(sent st \<longrightarrow> call_next c None st = st)
   \<and> (sent st \<longrightarrow> (\<exists>evs. trace (run c st) = trace st @ evs \<and> list_all is_error_event evs))
   \<and> (i < length (middlewareFns c) \<and> (\<exists>rest. actions (middlewareFns c ! i) = Send # rest)
        \<longrightarrow> list_all (allowed_event i) (trace (execute c sent0)))
   \<and> trace (execute \<lparr>middlewareFns = [\<lparr>actions = [Send, CallNext None], outcome = Returns\<rparr>,
                                        \<lparr>actions = [CallNext None], outcome = Returns\<rparr>],
                      terminalHandler = \<lparr>t_sends = False, t_outcome = Returns\<rparr>,
                      errorHandler_sends = False\<rparr> False)
       = [MiddlewareRun 0 :: 'e event]"
proof (intro conjI impI)
  show "call_next c None st = st" if "sent st"
    using that by (simp add: call_next_def)
  show "\<exists>evs. trace (run c st) = trace st @ evs \<and> list_all is_error_event evs" if "sent st"
    using that by (rule run_sent)
  show "list_all (allowed_event i) (trace (execute c sent0))"
    if "i < length (middlewareFns c) \<and> (\<exists>rest. actions (middlewareFns c ! i) = Send # rest)"
    using that by (intro execute_stops_at) simp_all
  show "trace (execute \<lparr>middlewareFns = [\<lparr>actions = [Send, CallNext None], outcome = Returns\<rparr>,
                                        \<lparr>actions = [CallNext None], outcome = Returns\<rparr>],
                      terminalHandler = \<lparr>t_sends = False, t_outcome = Returns\<rparr>,
                      errorHandler_sends = False\<rparr> False)
       = [MiddlewareRun 0 :: 'e event]"
    by (simp add: exec_eval)
qed

text \<open>
  The hypotheses at a concrete chain: the first middleware sends, calls \<open>next()\<close>,
  calls \<open>next(7)\<close> and throws \<open>8\<close>; the state is the one in which its first
  \<open>next()\<close> is called.
\<close>

theorem C9_stop_when_sent_witness:
  "sent \<lparr>idx = 1, sent = True, trace = [MiddlewareRun 0 :: nat event],
         stack = [([CallNext None, CallNext (Some 7)], Throws (Some 8))], jobs = []\<rparr>
   \<and> call_next \<lparr>middlewareFns = [\<lparr>actions = [Send, CallNext None, CallNext (Some 7)], outcome = Throws (Some 8)\<rparr>,
                                   \<lparr>actions = [CallNext None], outcome = Returns\<rparr>],
                 terminalHandler = \<lparr>t_sends = False, t_outcome = Returns\<rparr>,
                 errorHandler_sends = False\<rparr> None
        \<lparr>idx = 1, sent = True, trace = [MiddlewareRun 0 :: nat event],
         stack = [([CallNext None, CallNext (Some 7)], Throws (Some 8))], jobs = []\<rparr>
       = \<lparr>idx = 1, sent = True, trace = [MiddlewareRun 0 :: nat event],
         stack = [([CallNext None, CallNext (Some 7)], Throws (Some 8))], jobs = []\<rparr>
   \<and> list_all (allowed_event 0)
        (trace (execute \<lparr>middlewareFns = [\<lparr>actions = [Send, CallNext None, CallNext (Some 7)], outcome = Throws (Some (8::nat))\<rparr>,
                                   \<lparr>actions = [CallNext None], outcome = Returns\<rparr>],
                 terminalHandler = \<lparr>t_sends = False, t_outcome = Returns\<rparr>,
                 errorHandler_sends = False\<rparr> False))
   \<and> trace (execute \<lparr>middlewareFns = [\<lparr>actions = [Send, CallNext None, CallNext (Some 7)], outcome = Throws (Some (8::nat))\<rparr>,
                                   \<lparr>actions = [CallNext None], outcome = Returns\<rparr>],
                 terminalHandler = \<lparr>t_sends = False, t_outcome = Returns\<rparr>,
                 errorHandler_sends = False\<rparr> False)
       = [MiddlewareRun 0, ErrorHandlerRun (Some 7), ErrorHandlerRun (Some 8)]"
  using C9_stop_when_sent [of "\<lparr>idx = 1, sent = True, trace = [MiddlewareRun 0 :: nat event],
         stack = [([CallNext None, CallNext (Some 7)], Throws (Some 8))], jobs = []\<rparr>"
       "\<lparr>middlewareFns = [\<lparr>actions = [Send, CallNext None, CallNext (Some 7)], outcome = Throws (Some 8)\<rparr>,
                                   \<lparr>actions = [CallNext None], outcome = Returns\<rparr>],
                 terminalHandler = \<lparr>t_sends = False, t_outcome = Returns\<rparr>,
                 errorHandler_sends = False\<rparr>" 0 False]
  by (simp add: exec_eval)

end
